theory Spec2Isabelle
  imports Main "HOL-Library.Sublist" "HOL-Library.Option_ord" "HOL-Library.Signed_Division"
    "HOL-Library.Multiset"
begin

section \<open>C strings and receive buffers\<close>

text \<open>
  \<^verbatim>\<open>server.c\<close> works on NUL-terminated byte buffers. A buffer's text is the list of
  bytes before its first NUL; \<open>strlen\<close>, \<open>strcmp\<close>, \<open>strncmp\<close>, \<open>strstr\<close> and
  \<open>rtrim\<close> only ever see that text.
\<close>

definition NL :: char where "NL = CHR 0x0A"
definition CR :: char where "CR = CHR 0x0D"
definition NUL :: char where "NUL = CHR 0x00"

definition BUFFER_SIZE :: nat where "BUFFER_SIZE = 4096"

definition cstr :: "string \<Rightarrow> string" where
  \<comment> \<open>the C string held by a buffer whose bytes are \<open>bs\<close> followed by a NUL\<close>
  "cstr bs = takeWhile (\<lambda>c. c \<noteq> NUL) bs"

definition rtrim :: "string \<Rightarrow> string" where
  \<comment> \<open>\<open>while (n > 0 && (s[n-1] == '\n' || s[n-1] == '\r')) { s[n-1] = '\0'; n--; }\<close>\<close>
  "rtrim s = rev (dropWhile (\<lambda>c. c = NL \<or> c = CR) (rev s))"

fun strstr :: "string \<Rightarrow> string \<Rightarrow> string option" where
  \<comment> \<open>the suffix of the haystack at the first occurrence of the needle, \<open>None\<close> for NULL\<close>
  "strstr [] needle = (if needle = [] then Some [] else None)"
| "strstr (c # cs) needle =
     (if take (length needle) (c # cs) = needle then Some (c # cs) else strstr cs needle)"

definition strncmp_eq :: "string \<Rightarrow> string \<Rightarrow> nat \<Rightarrow> bool" where
  \<comment> \<open>\<open>strncmp(a, b, n) == 0\<close> on C strings\<close>
  "strncmp_eq a b n = (take n a = take n b)"

datatype recv_result = Data string | Eof | RecvError

fun recv_into :: "nat \<Rightarrow> recv_result \<Rightarrow> int \<times> string" where
  \<comment> \<open>\<open>recv(sock, buf, cap, 0)\<close>: the return value and the bytes written to \<open>buf\<close>\<close>
  "recv_into cap (Data bs) = (int (length (take cap bs)), take cap bs)"
| "recv_into cap Eof = (0, [])"
| "recv_into cap RecvError = (- 1, [])"

section \<open>The message store\<close>

text \<open>
  The store is a MongoDB collection reached through a client pool; only its interface is
  in the repository. A document holds the fields the server reads back: the text under
  \<open>message\<close> when it is a UTF-8 string, the milliseconds under \<open>timestamp\<close> when it
  is a date.
\<close>

record doc =
  message :: "string option"
  timestamp :: "int option"

datatype pool_status = NoPool | NoClient | NoCollection | Available

text \<open>What the world outside the handler supplies to one step of it.\<close>

record env =
  recv_in :: recv_result          \<comment> \<open>what the next \<open>recv\<close> on the socket yields\<close>
  pool :: pool_status             \<comment> \<open>\<open>mongo_pool\<close>, \<open>mongoc_client_pool_pop\<close>, \<open>mongoc_client_get_collection\<close>\<close>
  insert_error :: "string option" \<comment> \<open>\<open>error.message\<close> when \<open>mongoc_collection_insert_one\<close> fails\<close>
  now :: int                      \<comment> \<open>\<open>time(NULL)\<close>\<close>
  timestr :: "int \<Rightarrow> string"      \<comment> \<open>\<open>localtime_r\<close> and \<open>strftime("%Y-%m-%d %H:%M:%S")\<close> of a \<open>time_t\<close>\<close>

definition snprintf :: "nat \<Rightarrow> string \<Rightarrow> string" where
  \<comment> \<open>\<open>snprintf(buf, cap, ...)\<close> keeps at most \<open>cap - 1\<close> bytes of the formatted text\<close>
  "snprintf cap s = take (cap - 1) s"

definition insert_message_to_db_pool :: "env \<Rightarrow> string \<Rightarrow> doc list \<Rightarrow> string \<times> doc list" where
  "insert_message_to_db_pool e msg docs =
     (if pool e = NoPool then (''ERROR: no DB pool'' @ [NL], docs)
      else if pool e = NoClient then (''ERROR: could not pop client'' @ [NL], docs)
      else if pool e = NoCollection then (''ERROR: no collection'' @ [NL], docs)
      else case insert_error e of
             Some err \<Rightarrow> (snprintf 512 (''ERROR: insert failed: '' @ err @ [NL]), docs)
           | None \<Rightarrow>
               (snprintf 256 (''OK: message stored'' @ [NL]),
                docs @ [\<lparr>message = Some msg, timestamp = Some (now e * 1000)\<rparr>]))"

definition find_sorted :: "doc list \<Rightarrow> doc list" where
  \<comment> \<open>Modelled from the spec: the database behind \<open>mongoc_collection_find_with_opts\<close> is not
      part of the repository; with the option \<open>sort: {timestamp: 1}\<close> the cursor yields every
      stored document ascending by timestamp, ties in insertion order (documents without a
      timestamp first).\<close>
  "find_sorted docs = sort_key timestamp docs"

definition doc_text :: "doc \<Rightarrow> string" where
  \<comment> \<open>\<open>msg\<close> as \<open>%s\<close> prints it: the bytes of the stored message before its first NUL,
      \<open>(null)\<close> when the document has no UTF-8 \<open>message\<close>\<close>
  "doc_text d = (case message d of Some m \<Rightarrow> cstr m | None \<Rightarrow> ''(null)'')"

definition doc_stamp :: "env \<Rightarrow> doc \<Rightarrow> string" where
  \<comment> \<open>\<open>timestr\<close> as \<open>%s\<close> prints it, for \<open>sec = millis / 1000\<close> and \<open>millis = 0\<close> when
      the document has no date under \<open>timestamp\<close>\<close>
  "doc_stamp e d =
     (let millis = (case timestamp d of Some t \<Rightarrow> t | None \<Rightarrow> 0);
          sec = millis sdiv 1000
      in cstr (timestr e sec))"

definition line_text :: "env \<Rightarrow> doc \<Rightarrow> string" where
  \<comment> \<open>the text that the format \<open>"[%s] %s\n"\<close> produces for one document\<close>
  "line_text e d = ''['' @ doc_stamp e d @ ''] '' @ doc_text d @ [NL]"

definition format_line :: "env \<Rightarrow> doc \<Rightarrow> string" where
  \<comment> \<open>\<open>snprintf(line, sizeof(line), "[%s] %s\n", timestr, msg)\<close> with \<open>char line[1024]\<close>\<close>
  "format_line e d = snprintf 1024 (line_text e d)"

definition strncat :: "string \<Rightarrow> string \<Rightarrow> int \<Rightarrow> string" where
  \<comment> \<open>\<open>strncat(dst, src, n)\<close> with \<open>n\<close> a \<open>size_t\<close>: the argument wraps modulo \<open>2 ^ 64\<close>\<close>
  "strncat dst src n = dst @ take (nat (n mod 2 ^ 64)) src"

fun fetch_loop :: "env \<Rightarrow> nat \<Rightarrow> doc list \<Rightarrow> string \<Rightarrow> string" where
  "fetch_loop e buffer_size [] buffer = buffer"
| "fetch_loop e buffer_size (d # ds) buffer =
     fetch_loop e buffer_size ds
       (strncat buffer (format_line e d) (int buffer_size - int (length buffer) - 1))"

definition strncpy_term :: "string \<Rightarrow> nat \<Rightarrow> string" where
  \<comment> \<open>\<open>strncpy(buffer, s, buffer_size - 1); buffer[buffer_size - 1] = '\0';\<close>\<close>
  "strncpy_term s buffer_size = take (buffer_size - 1) s"

definition fetch_messages_from_db_pool :: "env \<Rightarrow> doc list \<Rightarrow> nat \<Rightarrow> string" where
  "fetch_messages_from_db_pool e docs buffer_size =
     (if pool e = NoPool then strncpy_term (''No DB pool'' @ [NL]) buffer_size
      else if pool e = NoClient then strncpy_term (''DB client unavailable'' @ [NL]) buffer_size
      else if pool e = NoCollection then strncpy_term (''DB collection unavailable'' @ [NL]) buffer_size
      else fetch_loop e buffer_size (find_sorted docs) [])"

section \<open>Shared lock state and events\<close>

text \<open>
  A semaphore is its counter: \<open>sem_wait\<close> returns once it has taken a unit, \<open>sem_post\<close>
  adds one. An event records one thing a thread does to a semaphore, the store or its socket.
\<close>

datatype sem = Mutex | Wrt

datatype event =
    SemWait sem
  | SemPost sem
  | Send string
  | DbInsert string
  | DbFetch
  | Close

record shared =
  mutex :: nat          \<comment> \<open>\<open>static sem_t mutex\<close>, protects \<open>reader_count\<close>\<close>
  wrt :: nat            \<comment> \<open>\<open>static sem_t wrt\<close>, the writer gate\<close>
  reader_count :: int   \<comment> \<open>\<open>static int reader_count\<close>; it counts threads, and the \<open>2 ^ 31\<close>
                            simultaneous readers that would overflow it are out of reach\<close>
  docs :: "doc list"    \<comment> \<open>contents of the collection \<open>chatdb.chat\<close>\<close>

definition send :: "string \<Rightarrow> nat \<Rightarrow> event" where
  \<comment> \<open>\<open>send(sock, data, n, 0)\<close> transmits the first \<open>n\<close> bytes of \<open>data\<close>\<close>
  "send data n = Send (take n data)"

section \<open>Role negotiation\<close>

definition determine_mode :: "string \<Rightarrow> string" where
  "determine_mode initial =
     (if strncmp_eq initial ''writer'' 6 then ''writer''
      else if strncmp_eq initial ''reader'' 6 then ''reader''
      else if strstr initial ''writer'' \<noteq> None then ''writer''
      else if strstr initial ''reader'' \<noteq> None then ''reader''
      else [])"

definition p_after :: "string \<Rightarrow> string option" where
  \<comment> \<open>the payload after the six bytes of the role token, \<open>None\<close> for the NULL pointer\<close>
  "p_after initial =
     (if length initial > 6
      then (let p = dropWhile (\<lambda>c. c = CHR '' '' \<or> c = NL \<or> c = CR) (drop 6 initial)
            in Some (if p \<noteq> [] then rtrim p else p))
      else None)"

section \<open>Writer commands\<close>

text \<open>
  A command either blocks in \<open>sem_wait\<close> (\<open>None\<close>) or returns the new \<open>has_lock\<close>,
  whether the loop goes on, the new shared state and the events it produced.
\<close>

type_synonym cmd_result = "(bool \<times> bool \<times> shared \<times> event list) option"

definition initial_command :: "env \<Rightarrow> string \<Rightarrow> bool \<Rightarrow> shared \<Rightarrow> cmd_result" where
  \<comment> \<open>lines 164 to 183: the payload of the role frame\<close>
  "initial_command e p has_lock sh =
     (if p = ''start'' then
        (if wrt sh = 0 then None
         else Some (True, True, sh\<lparr>wrt := wrt sh - 1\<rparr>,
                    [SemWait Wrt, send (''OK: writer session started'' @ [NL]) 26]))
      else if p = ''stop'' then
        Some (has_lock, True, sh, [send (''OK: writer session stopped'' @ [NL]) 26])
      else if \<not> has_lock then
        Some (has_lock, True, sh, [send (''ERROR: start writing first'' @ [NL]) 27])
      else
        (let (res, ds) = insert_message_to_db_pool e p (docs sh)
         in Some (has_lock, True, sh\<lparr>docs := ds\<rparr>, [DbInsert p, send res (length res)])))"

definition loop_command :: "env \<Rightarrow> string \<Rightarrow> bool \<Rightarrow> shared \<Rightarrow> cmd_result" where
  \<comment> \<open>lines 191 to 217: one non-empty frame of the command loop\<close>
  "loop_command e buf has_lock sh =
     (if buf = ''start'' then
        (if wrt sh = 0 then None
         else Some (True, True, sh\<lparr>wrt := wrt sh - 1\<rparr>,
                    [SemWait Wrt, send (''OK: writer session started'' @ [NL]) 26]))
      else if buf = ''stop'' then
        (if has_lock then
           Some (False, True, sh\<lparr>wrt := wrt sh + 1\<rparr>,
                 [SemPost Wrt, send (''OK: writer session stopped'' @ [NL]) 26])
         else
           Some (has_lock, True, sh, [send (''ERROR: no active writer session'' @ [NL]) 32]))
      else if buf = ''exit'' then
        Some (has_lock, False, sh, [])
      else if \<not> has_lock then
        Some (has_lock, True, sh, [send (''ERROR: You must start writing first'' @ [NL]) 36])
      else
        (let (res, ds) = insert_message_to_db_pool e buf (docs sh)
         in Some (has_lock, True, sh\<lparr>docs := ds\<rparr>, [DbInsert buf, send res (length res)])))"

section \<open>One connection: \<open>handle_client\<close> as a step machine\<close>

text \<open>
  Each connection runs \<open>handle_client\<close> in a thread of its own. A label names the
  statement the thread executes next; the writer's \<open>has_lock\<close> is part of the label.
  Every semaphore operation and every access to \<open>reader_count\<close> of the reader is a
  step of its own; a writer command, which performs at most one semaphore operation, is
  one step when that operation does not block. A \<open>start\<close> that finds the gate taken
  has consumed its frame and leaves the thread inside \<open>sem_wait(&wrt)\<close>, at \<open>WStart\<close>:
  from there the thread neither receives nor tears down, it can only take the gate once
  the gate is free. A step that returns \<open>None\<close> is not enabled: the thread is blocked
  in \<open>sem_wait\<close>, or it has returned.
\<close>

datatype label =
    AwaitRole          \<comment> \<open>line 138, the first \<open>recv\<close>\<close>
  | WInitial string    \<comment> \<open>line 161, the writer branch entered with this \<open>initial\<close>\<close>
  | WLoop bool         \<comment> \<open>line 186, \<open>recv\<close> in the command loop, with \<open>has_lock\<close>\<close>
  | WStart bool        \<comment> \<open>lines 166 and 192, inside \<open>sem_wait(&wrt)\<close> of a \<open>start\<close>, with
                           \<open>has_lock\<close> as it was when the command arrived\<close>
  | WTeardown bool     \<comment> \<open>line 220, after the loop, with \<open>has_lock\<close>\<close>
  | REntry             \<comment> \<open>line 231, \<open>sem_wait(&mutex)\<close>\<close>
  | RInc               \<comment> \<open>line 232, \<open>reader_count++\<close>\<close>
  | RTest              \<comment> \<open>line 233, \<open>if (reader_count == 1)\<close>\<close>
  | RWaitWrt           \<comment> \<open>line 233, \<open>sem_wait(&wrt)\<close>\<close>
  | RPostMutex         \<comment> \<open>line 234, \<open>sem_post(&mutex)\<close>\<close>
  | RFetch             \<comment> \<open>lines 237 to 239, fetch and send\<close>
  | RExit              \<comment> \<open>line 241, \<open>sem_wait(&mutex)\<close>\<close>
  | RDec               \<comment> \<open>line 242, \<open>reader_count--\<close>\<close>
  | RTest0             \<comment> \<open>line 243, \<open>if (reader_count == 0)\<close>\<close>
  | RPostWrt           \<comment> \<open>line 243, \<open>sem_post(&wrt)\<close>\<close>
  | RPostMutex2        \<comment> \<open>line 244, \<open>sem_post(&mutex)\<close>\<close>
  | RClose             \<comment> \<open>line 247, \<open>close(sock)\<close>\<close>
  | Done               \<comment> \<open>returned\<close>

record thread =
  pc :: label
  mode :: string          \<comment> \<open>\<open>char mode[16] = {0}\<close>\<close>
  log :: "event list"     \<comment> \<open>what this thread has done to the semaphores, the store and its socket\<close>

definition goto :: "thread \<Rightarrow> label \<Rightarrow> event list \<Rightarrow> thread" where
  "goto t l evs = t\<lparr>pc := l, log := log t @ evs\<rparr>"

definition await_role :: "env \<Rightarrow> shared \<Rightarrow> thread \<Rightarrow> (shared \<times> thread) option" where
  \<comment> \<open>lines 137 to 153, 229 and 250 to 254\<close>
  "await_role e sh t =
     (let (r, bytes) = recv_into (BUFFER_SIZE - 1) (recv_in e)
      in if r \<le> 0 then Some (sh, goto t Done [Close])
         else
           (let initial = rtrim (cstr bytes); m = determine_mode initial
            in if m = ''writer'' then Some (sh, goto (t\<lparr>mode := m\<rparr>) (WInitial initial) [])
               else if m = ''reader'' then Some (sh, goto (t\<lparr>mode := m\<rparr>) REntry [])
               else Some (sh, goto (t\<lparr>mode := m\<rparr>) Done [Close])))"

definition writer_initial :: "env \<Rightarrow> shared \<Rightarrow> thread \<Rightarrow> string \<Rightarrow> (shared \<times> thread) option" where
  \<comment> \<open>lines 157 to 183: \<open>has_lock = 0\<close>, then the payload of the first frame, if any\<close>
  "writer_initial e sh t initial =
     (case p_after initial of
        None \<Rightarrow> Some (sh, goto t (WLoop False) [])
      | Some p \<Rightarrow>
          if length p > 0 then
            (case initial_command e p False sh of
               None \<Rightarrow> Some (sh, goto t (WStart False) [])
             | Some (h, cont, sh', evs) \<Rightarrow> Some (sh', goto t (WLoop h) evs))
          else Some (sh, goto t (WLoop False) []))"

definition writer_loop :: "env \<Rightarrow> shared \<Rightarrow> thread \<Rightarrow> bool \<Rightarrow> (shared \<times> thread) option" where
  \<comment> \<open>lines 186 to 218: one iteration of the command loop\<close>
  "writer_loop e sh t has_lock =
     (let (n, bytes) = recv_into (BUFFER_SIZE - 1) (recv_in e)
      in if \<not> n > 0 then Some (sh, goto t (WTeardown has_lock) [])
         else
           (let buf = rtrim (cstr bytes)
            in if length buf = 0 then Some (sh, goto t (WLoop has_lock) [])
               else
                 (case loop_command e buf has_lock sh of
                    None \<Rightarrow> Some (sh, goto t (WStart has_lock) [])
                  | Some (h, cont, sh', evs) \<Rightarrow>
                      Some (sh', goto t (if cont then WLoop h else WTeardown h) evs))))"

definition writer_start :: "shared \<Rightarrow> thread \<Rightarrow> (shared \<times> thread) option" where
  \<comment> \<open>lines 166 to 168 and 192 to 194, for a thread that waits inside \<open>sem_wait(&wrt)\<close>\<close>
  "writer_start sh t =
     (if wrt sh = 0 then None
      else Some (sh\<lparr>wrt := wrt sh - 1\<rparr>,
                 goto t (WLoop True)
                   [SemWait Wrt, send (''OK: writer session started'' @ [NL]) 26]))"

definition writer_teardown :: "shared \<Rightarrow> thread \<Rightarrow> bool \<Rightarrow> (shared \<times> thread) option" where
  \<comment> \<open>lines 220 to 227\<close>
  "writer_teardown sh t has_lock =
     (if has_lock then Some (sh\<lparr>wrt := wrt sh + 1\<rparr>, goto t Done [SemPost Wrt, Close])
      else Some (sh, goto t Done [Close]))"

definition reader_step :: "env \<Rightarrow> shared \<Rightarrow> thread \<Rightarrow> (shared \<times> thread) option" where
  \<comment> \<open>lines 231 to 248, one statement at a time\<close>
  "reader_step e sh t =
     (case pc t of
        REntry \<Rightarrow>
          if mutex sh = 0 then None
          else Some (sh\<lparr>mutex := mutex sh - 1\<rparr>, goto t RInc [SemWait Mutex])
      | RInc \<Rightarrow> Some (sh\<lparr>reader_count := reader_count sh + 1\<rparr>, goto t RTest [])
      | RTest \<Rightarrow> Some (sh, goto t (if reader_count sh = 1 then RWaitWrt else RPostMutex) [])
      | RWaitWrt \<Rightarrow>
          if wrt sh = 0 then None
          else Some (sh\<lparr>wrt := wrt sh - 1\<rparr>, goto t RPostMutex [SemWait Wrt])
      | RPostMutex \<Rightarrow> Some (sh\<lparr>mutex := mutex sh + 1\<rparr>, goto t RFetch [SemPost Mutex])
      | RFetch \<Rightarrow>
          (let out = fetch_messages_from_db_pool e (docs sh) (BUFFER_SIZE * 8)
           in Some (sh, goto t RExit [DbFetch, send out (length out)]))
      | RExit \<Rightarrow>
          if mutex sh = 0 then None
          else Some (sh\<lparr>mutex := mutex sh - 1\<rparr>, goto t RDec [SemWait Mutex])
      | RDec \<Rightarrow> Some (sh\<lparr>reader_count := reader_count sh - 1\<rparr>, goto t RTest0 [])
      | RTest0 \<Rightarrow> Some (sh, goto t (if reader_count sh = 0 then RPostWrt else RPostMutex2) [])
      | RPostWrt \<Rightarrow> Some (sh\<lparr>wrt := wrt sh + 1\<rparr>, goto t RPostMutex2 [SemPost Wrt])
      | RPostMutex2 \<Rightarrow> Some (sh\<lparr>mutex := mutex sh + 1\<rparr>, goto t RClose [SemPost Mutex])
      | RClose \<Rightarrow> Some (sh, goto t Done [Close])
      | _ \<Rightarrow> None)"

definition thread_step :: "env \<Rightarrow> shared \<Rightarrow> thread \<Rightarrow> (shared \<times> thread) option" where
  "thread_step e sh t =
     (case pc t of
        AwaitRole \<Rightarrow> await_role e sh t
      | WInitial initial \<Rightarrow> writer_initial e sh t initial
      | WLoop h \<Rightarrow> writer_loop e sh t h
      | WStart h \<Rightarrow> writer_start sh t
      | WTeardown h \<Rightarrow> writer_teardown sh t h
      | Done \<Rightarrow> None
      | _ \<Rightarrow> reader_step e sh t)"

section \<open>The server: all connections over one lock\<close>

record system =
  sh :: shared
  threads :: "thread list"

definition new_thread :: thread where
  "new_thread = \<lparr>pc = AwaitRole, mode = [], log = []\<rparr>"

text \<open>
  \<open>main\<close> initialises both semaphores to 1 and \<open>reader_count\<close> to 0, then accepts
  connections; each accepted connection is a new thread, and the threads interleave.
\<close>

inductive reachable :: "system \<Rightarrow> bool" where
  init: "reachable \<lparr>sh = \<lparr>mutex = 1, wrt = 1, reader_count = 0, docs = ds\<rparr>, threads = []\<rparr>"
| accept: "reachable s \<Longrightarrow> reachable (s\<lparr>threads := threads s @ [new_thread]\<rparr>)"
| step: "reachable s \<Longrightarrow> i < length (threads s) \<Longrightarrow>
         thread_step e (sh s) (threads s ! i) = Some (sh', t') \<Longrightarrow>
         reachable \<lparr>sh = sh', threads = (threads s)[i := t']\<rparr>"

text \<open>
  \<open>later s s'\<close>: the server can go from \<open>s\<close> to \<open>s'\<close>, by accepting connections and by
  steps of its threads.
\<close>

inductive later :: "system \<Rightarrow> system \<Rightarrow> bool" where
  same: "later s s"
| accept: "later s s' \<Longrightarrow> later s (s'\<lparr>threads := threads s' @ [new_thread]\<rparr>)"
| step: "later s s' \<Longrightarrow> i < length (threads s') \<Longrightarrow>
         thread_step e (sh s') (threads s' ! i) = Some (sh', t') \<Longrightarrow>
         later s \<lparr>sh = sh', threads = (threads s')[i := t']\<rparr>"

section \<open>Notions used in the statements\<close>

definition frame_text :: "string \<Rightarrow> string" where
  \<comment> \<open>a received frame as the handler reads it: \<open>buf[n] = '\0'; rtrim(buf);\<close>\<close>
  "frame_text bs = rtrim (cstr (take (BUFFER_SIZE - 1) bs))"

definition loop_exits :: "env \<Rightarrow> bool" where
  \<comment> \<open>the ways out of the command loop: \<open>recv\<close> returns 0 or -1, or the frame is \<open>exit\<close>\<close>
  "loop_exits e =
     (case recv_in e of
        Data bs \<Rightarrow> bs = [] \<or> frame_text bs = ''exit''
      | Eof \<Rightarrow> True
      | RecvError \<Rightarrow> True)"

fun replies :: "event list \<Rightarrow> string list" where
  \<comment> \<open>the reply lines a trace sends, without their line terminators\<close>
  "replies [] = []"
| "replies (Send data # evs) = rtrim data # replies evs"
| "replies (ev # evs) = replies evs"




section \<open>Invariants of the lock\<close>

text \<open>
  Threads are counted by what their label says they hold. A reader holds the mutex from
  \<open>sem_wait(&mutex)\<close> to the matching \<open>sem_post(&mutex)\<close>; it is counted in
  \<open>reader_count\<close> from the increment to the decrement; and it is covered by the gate that
  the readers took together from the end of the gate test in the entry section to the
  release in the exit section. The five groups below are the combinations that occur.
\<close>

definition cnt :: "(label \<Rightarrow> bool) \<Rightarrow> thread list \<Rightarrow> nat" where
  \<comment> \<open>the number of threads whose label satisfies \<open>P\<close>\<close>
  "cnt P ts = length (filter (\<lambda>t. P (pc t)) ts)"

fun entering :: "label \<Rightarrow> bool" where
  \<comment> \<open>holds the mutex, counted, not yet covered by the gate\<close>
  "entering RTest = True" | "entering RWaitWrt = True" | "entering _ = False"

fun admitted :: "label \<Rightarrow> bool" where
  \<comment> \<open>holds the mutex, counted, covered\<close>
  "admitted RPostMutex = True" | "admitted RDec = True" | "admitted _ = False"

fun reading :: "label \<Rightarrow> bool" where
  \<comment> \<open>without the mutex, counted, covered: the read itself and the wait that follows it\<close>
  "reading RFetch = True" | "reading RExit = True" | "reading _ = False"

fun leaving :: "label \<Rightarrow> bool" where
  \<comment> \<open>holds the mutex, no longer counted, still covered\<close>
  "leaving RTest0 = True" | "leaving RPostWrt = True" | "leaving _ = False"

fun passing :: "label \<Rightarrow> bool" where
  \<comment> \<open>holds the mutex, neither counted nor covered\<close>
  "passing RInc = True" | "passing RPostMutex2 = True" | "passing _ = False"

fun holds_gate :: "label \<Rightarrow> bool" where
  \<comment> \<open>a writer whose \<open>has_lock\<close> is set\<close>
  "holds_gate (WLoop h) = h" | "holds_gate (WStart h) = h" | "holds_gate (WTeardown h) = h"
| "holds_gate _ = False"

fun past_gate :: "label \<Rightarrow> bool" where
  \<comment> \<open>a reader covered by the gate\<close>
  "past_gate l = (admitted l \<or> reading l \<or> leaving l)"

definition inv_num :: "nat \<Rightarrow> nat \<Rightarrow> int \<Rightarrow> nat \<Rightarrow> nat \<Rightarrow> nat \<Rightarrow> nat \<Rightarrow> nat \<Rightarrow> nat \<Rightarrow> nat \<Rightarrow> nat \<Rightarrow> bool" where
  \<comment> \<open>the invariant on the two semaphores \<open>m\<close> and \<open>w\<close>, the counter \<open>rc\<close> and the numbers
      of threads that are entering, admitted, reading, leaving, passing, holding the gate
      as writers, at \<open>RWaitWrt\<close> and at \<open>RPostWrt\<close>\<close>
  "inv_num m w rc A B C D E H W P =
     (m + A + B + D + E = 1
       \<and> rc = int (A + B + C)
       \<and> w + H + (if B + C + D > 0 then 1 else 0) = 1
       \<and> (W > 0 \<longrightarrow> rc = 1)
       \<and> (P > 0 \<longrightarrow> rc = 0))"

definition lock_inv :: "system \<Rightarrow> bool" where
  "lock_inv s =
     inv_num (mutex (sh s)) (wrt (sh s)) (reader_count (sh s))
       (cnt entering (threads s)) (cnt admitted (threads s)) (cnt reading (threads s))
       (cnt leaving (threads s)) (cnt passing (threads s)) (cnt holds_gate (threads s))
       (cnt (\<lambda>l. l = RWaitWrt) (threads s)) (cnt (\<lambda>l. l = RPostWrt) (threads s))"

section \<open>Traces of a reader connection\<close>









section \<open>Concrete scenarios\<close>

definition world :: "recv_result \<Rightarrow> env" where
  \<comment> \<open>the peer delivers \<open>r\<close>, the store is reachable, the clock reads the epoch\<close>
  "world r = \<lparr>recv_in = r, pool = Available, insert_error = None, now = 0,
              timestr = (\<lambda>sec. ''1970-01-01 00:00:00'')\<rparr>"

definition fresh :: shared where
  \<comment> \<open>the lock as \<open>main\<close> initialises it, over an empty collection\<close>
  "fresh = \<lparr>mutex = 1, wrt = 1, reader_count = 0, docs = []\<rparr>"

definition writer_at :: "label \<Rightarrow> event list \<Rightarrow> thread" where
  "writer_at l evs = \<lparr>pc = l, mode = ''writer'', log = evs\<rparr>"

definition reader_at :: "label \<Rightarrow> event list \<Rightarrow> thread" where
  "reader_at l evs = \<lparr>pc = l, mode = ''reader'', log = evs\<rparr>"

definition started_ack :: "event list" where
  "started_ack = [SemWait Wrt, Send ''OK: writer session started'']"

definition writer_started :: system where
  \<comment> \<open>one writer, after the frame \<open>writer start\<close>\<close>
  "writer_started = \<lparr>sh = fresh\<lparr>wrt := 0\<rparr>, threads = [writer_at (WLoop True) started_ack]\<rparr>"

definition writer_stuck :: system where
  \<comment> \<open>the same writer after a second frame \<open>start\<close>: inside \<open>sem_wait(&wrt)\<close> at line 192\<close>
  "writer_stuck = \<lparr>sh = fresh\<lparr>wrt := 0\<rparr>, threads = [writer_at (WStart True) started_ack]\<rparr>"

definition blocked_reader :: system where
  \<comment> \<open>a writer holds the gate; a reader has incremented \<open>reader_count\<close> and not yet
      reached \<open>sem_wait(&wrt)\<close>\<close>
  "blocked_reader =
     \<lparr>sh = \<lparr>mutex = 0, wrt = 0, reader_count = 1, docs = []\<rparr>,
      threads = [writer_at (WLoop True) started_ack, reader_at RTest [SemWait Mutex]]\<rparr>"

definition hello_doc :: doc where
  "hello_doc = \<lparr>message = Some ''hello'', timestamp = Some 0\<rparr>"

definition stocked :: shared where
  \<comment> \<open>the lock as \<open>main\<close> initialises it, over a collection that holds one message\<close>
  "stocked = \<lparr>mutex = 1, wrt = 1, reader_count = 0, docs = [hello_doc]\<rparr>"

definition hello_reply :: string where
  "hello_reply = ''[1970-01-01 00:00:00] hello'' @ [NL]"

definition lone_reader :: "shared \<Rightarrow> label \<Rightarrow> event list \<Rightarrow> system" where
  "lone_reader s l evs = \<lparr>sh = s, threads = [reader_at l evs]\<rparr>"



definition reader_finished :: system where
  \<comment> \<open>one reader, served alone from that collection\<close>
  "reader_finished =
     lone_reader stocked Done
       [SemWait Mutex, SemWait Wrt, SemPost Mutex, DbFetch, Send hello_reply,
        SemWait Mutex, SemPost Wrt, SemPost Mutex, Close]"


definition nul_doc :: doc where
  \<comment> \<open>a document whose \<open>message\<close> holds a NUL, as another client of the store can write\<close>
  "nul_doc = \<lparr>message = Some (''ab'' @ [NUL] @ ''cd''), timestamp = Some 0\<rparr>"


section \<open>Steps preserve the lock invariant\<close>

text \<open>What an enabled step of a reader does, label by label.\<close>

lemma reader_step_effect:
  assumes "reader_step e s t = Some (s', t')"
  shows "case pc t of
           REntry \<Rightarrow> mutex s > 0 \<and> s' = s\<lparr>mutex := mutex s - 1\<rparr> \<and> t' = goto t RInc [SemWait Mutex]
         | RInc \<Rightarrow> s' = s\<lparr>reader_count := reader_count s + 1\<rparr> \<and> t' = goto t RTest []
         | RTest \<Rightarrow> s' = s \<and> t' = goto t (if reader_count s = 1 then RWaitWrt else RPostMutex) []
         | RWaitWrt \<Rightarrow> wrt s > 0 \<and> s' = s\<lparr>wrt := wrt s - 1\<rparr> \<and> t' = goto t RPostMutex [SemWait Wrt]
         | RPostMutex \<Rightarrow> s' = s\<lparr>mutex := mutex s + 1\<rparr> \<and> t' = goto t RFetch [SemPost Mutex]
         | RFetch \<Rightarrow> s' = s \<and> t' = goto t RExit [DbFetch, Send (fetch_messages_from_db_pool e (docs s) (BUFFER_SIZE * 8))]
         | RExit \<Rightarrow> mutex s > 0 \<and> s' = s\<lparr>mutex := mutex s - 1\<rparr> \<and> t' = goto t RDec [SemWait Mutex]
         | RDec \<Rightarrow> s' = s\<lparr>reader_count := reader_count s - 1\<rparr> \<and> t' = goto t RTest0 []
         | RTest0 \<Rightarrow> s' = s \<and> t' = goto t (if reader_count s = 0 then RPostWrt else RPostMutex2) []
         | RPostWrt \<Rightarrow> s' = s\<lparr>wrt := wrt s + 1\<rparr> \<and> t' = goto t RPostMutex2 [SemPost Wrt]
         | RPostMutex2 \<Rightarrow> s' = s\<lparr>mutex := mutex s + 1\<rparr> \<and> t' = goto t RClose [SemPost Mutex]
         | RClose \<Rightarrow> s' = s \<and> t' = goto t Done [Close]
         | _ \<Rightarrow> False"
  using assms by (cases "pc t") (auto simp: reader_step_def Let_def send_def split: if_splits)

text \<open>Replacing one thread changes each count by what the old and the new label say.\<close>

lemma cnt_pos: "i < length ts \<Longrightarrow> P (pc (ts ! i)) \<Longrightarrow> 0 < cnt P ts"
  unfolding cnt_def by (metis filter_empty_conv length_greater_0_conv nth_mem)

lemma cnt_update_add:
  "i < length ts \<Longrightarrow>
   cnt P (ts[i := t']) + (if P (pc (ts ! i)) then 1 else 0) = cnt P ts + (if P (pc t') then 1 else 0)"
proof (induction ts arbitrary: i)
  case Nil then show ?case by simp
next
  case (Cons a ts)
  show ?case
  proof (cases i)
    case 0 then show ?thesis by (simp add: cnt_def)
  next
    case (Suc j)
    with Cons.prems have "j < length ts" by simp
    from Cons.IH [OF this] Suc show ?thesis by (simp add: cnt_def)
  qed
qed

lemma cnt_update:
  assumes "i < length ts"
  shows "cnt P (ts[i := t']) = cnt P ts - (if P (pc (ts ! i)) then 1 else 0) + (if P (pc t') then 1 else 0)"
  using cnt_update_add [OF assms, of P t'] cnt_pos [OF assms, of P] by (simp split: if_splits)

lemma cnt_append: "cnt P (ts @ [t]) = cnt P ts + (if P (pc t) then 1 else 0)"
  by (simp add: cnt_def)

lemma cnt_mono: "(\<And>l. P l \<Longrightarrow> Q l) \<Longrightarrow> cnt P ts \<le> cnt Q ts"
  by (induction ts) (auto simp: cnt_def)


text \<open>
  A writer command leaves the mutex and \<open>reader_count\<close> alone, and changes the gate only
  together with \<open>has_lock\<close>.
\<close>

lemma loop_command_lock:
  assumes "loop_command e buf h s = Some (h', c, s', evs)"
  shows "mutex s' = mutex s \<and> reader_count s' = reader_count s \<and>
         ((h' = h \<and> wrt s' = wrt s) \<or> (h' \<and> wrt s = wrt s' + 1) \<or> (h \<and> \<not> h' \<and> wrt s' = wrt s + 1))"
  using assms by (auto simp: loop_command_def split: if_splits prod.splits)

lemma initial_command_lock:
  assumes "initial_command e p False s = Some (h', c, s', evs)"
  shows "mutex s' = mutex s \<and> reader_count s' = reader_count s \<and>
         ((\<not> h' \<and> wrt s' = wrt s) \<or> (h' \<and> wrt s = wrt s' + 1))"
  using assms by (auto simp: initial_command_def split: if_splits prod.splits)

lemma step_inv:
  assumes inv: "lock_inv s" and i: "i < length (threads s)"
    and st: "thread_step e (sh s) (threads s ! i) = Some (sh', t')"
  shows "lock_inv \<lparr>sh = sh', threads = (threads s)[i := t']\<rparr>"
proof -
  define m w rc where "m = mutex (sh s)" and "w = wrt (sh s)" and "rc = reader_count (sh s)"
  define A B C D E H W P where "A = cnt entering (threads s)" and "B = cnt admitted (threads s)"
    and "C = cnt reading (threads s)" and "D = cnt leaving (threads s)"
    and "E = cnt passing (threads s)" and "H = cnt holds_gate (threads s)"
    and "W = cnt (\<lambda>l. l = RWaitWrt) (threads s)" and "P = cnt (\<lambda>l. l = RPostWrt) (threads s)"
  note defs = A_def B_def C_def D_def E_def H_def W_def P_def
  note u = cnt_update [OF i, of _ t']
  note us = u [of entering] u [of admitted] u [of reading] u [of leaving] u [of passing]
            u [of holds_gate] u [of "\<lambda>l. l = RWaitWrt"] u [of "\<lambda>l. l = RPostWrt"]
  note us = us [folded defs]
  note p = cnt_pos [OF i]
  note ps = p [of entering] p [of admitted] p [of reading] p [of leaving] p [of passing]
            p [of holds_gate] p [of "\<lambda>l. l = RWaitWrt"] p [of "\<lambda>l. l = RPostWrt"]
  note ps = ps [folded defs]
  have old: "inv_num m w rc A B C D E H W P"
    using inv unfolding lock_inv_def defs m_def w_def rc_def .
  have sub: "W \<le> A" "P \<le> D"
    unfolding defs by (rule cnt_mono, simp)+
  have "inv_num (mutex sh') (wrt sh') (reader_count sh')
          (cnt entering ((threads s)[i := t'])) (cnt admitted ((threads s)[i := t']))
          (cnt reading ((threads s)[i := t'])) (cnt leaving ((threads s)[i := t']))
          (cnt passing ((threads s)[i := t'])) (cnt holds_gate ((threads s)[i := t']))
          (cnt (\<lambda>l. l = RWaitWrt) ((threads s)[i := t'])) (cnt (\<lambda>l. l = RPostWrt) ((threads s)[i := t']))"
  proof (cases "pc (threads s ! i)")
    case REntry
    with st reader_step_effect [of e "sh s" "threads s ! i" sh' t']
    have eff: "m > 0" "mutex sh' = m - 1" "wrt sh' = w" "reader_count sh' = rc" "pc t' = RInc"
      by (auto simp: thread_step_def goto_def m_def w_def rc_def)
    show ?thesis
      unfolding us [unfolded REntry eff(5), simplified] eff(2-4)
      using old sub ps [unfolded REntry, simplified] eff(1)
      by (auto simp: inv_num_def split: if_splits)
  next
    case RInc
    with st reader_step_effect [of e "sh s" "threads s ! i" sh' t']
    have eff: "True" "mutex sh' = m" "wrt sh' = w" "reader_count sh' = rc + 1" "pc t' = RTest"
      by (auto simp: thread_step_def goto_def m_def w_def rc_def)
    show ?thesis
      unfolding us [unfolded RInc eff(5), simplified] eff(2-4)
      using old sub ps [unfolded RInc, simplified] eff(1)
      by (auto simp: inv_num_def split: if_splits)
  next
    case RTest
    with st reader_step_effect [of e "sh s" "threads s ! i" sh' t']
    have eff: "True" "mutex sh' = m" "wrt sh' = w" "reader_count sh' = rc" "pc t' = (if rc = 1 then RWaitWrt else RPostMutex)"
      by (auto simp: thread_step_def goto_def m_def w_def rc_def)
    show ?thesis
      unfolding us [unfolded RTest eff(5), simplified] eff(2-4)
      using old sub ps [unfolded RTest, simplified] eff(1)
      by (auto simp: inv_num_def split: if_splits)
  next
    case RWaitWrt
    with st reader_step_effect [of e "sh s" "threads s ! i" sh' t']
    have eff: "w > 0" "mutex sh' = m" "wrt sh' = w - 1" "reader_count sh' = rc" "pc t' = RPostMutex"
      by (auto simp: thread_step_def goto_def m_def w_def rc_def)
    show ?thesis
      unfolding us [unfolded RWaitWrt eff(5), simplified] eff(2-4)
      using old sub ps [unfolded RWaitWrt, simplified] eff(1)
      by (auto simp: inv_num_def split: if_splits)
  next
    case RPostMutex
    with st reader_step_effect [of e "sh s" "threads s ! i" sh' t']
    have eff: "True" "mutex sh' = m + 1" "wrt sh' = w" "reader_count sh' = rc" "pc t' = RFetch"
      by (auto simp: thread_step_def goto_def m_def w_def rc_def)
    show ?thesis
      unfolding us [unfolded RPostMutex eff(5), simplified] eff(2-4)
      using old sub ps [unfolded RPostMutex, simplified] eff(1)
      by (auto simp: inv_num_def split: if_splits)
  next
    case RFetch
    with st reader_step_effect [of e "sh s" "threads s ! i" sh' t']
    have eff: "True" "mutex sh' = m" "wrt sh' = w" "reader_count sh' = rc" "pc t' = RExit"
      by (auto simp: thread_step_def goto_def m_def w_def rc_def)
    show ?thesis
      unfolding us [unfolded RFetch eff(5), simplified] eff(2-4)
      using old sub ps [unfolded RFetch, simplified] eff(1)
      by (auto simp: inv_num_def split: if_splits)
  next
    case RExit
    with st reader_step_effect [of e "sh s" "threads s ! i" sh' t']
    have eff: "m > 0" "mutex sh' = m - 1" "wrt sh' = w" "reader_count sh' = rc" "pc t' = RDec"
      by (auto simp: thread_step_def goto_def m_def w_def rc_def)
    show ?thesis
      unfolding us [unfolded RExit eff(5), simplified] eff(2-4)
      using old sub ps [unfolded RExit, simplified] eff(1)
      by (auto simp: inv_num_def split: if_splits)
  next
    case RDec
    with st reader_step_effect [of e "sh s" "threads s ! i" sh' t']
    have eff: "True" "mutex sh' = m" "wrt sh' = w" "reader_count sh' = rc - 1" "pc t' = RTest0"
      by (auto simp: thread_step_def goto_def m_def w_def rc_def)
    show ?thesis
      unfolding us [unfolded RDec eff(5), simplified] eff(2-4)
      using old sub ps [unfolded RDec, simplified] eff(1)
      by (auto simp: inv_num_def split: if_splits)
  next
    case RTest0
    with st reader_step_effect [of e "sh s" "threads s ! i" sh' t']
    have eff: "True" "mutex sh' = m" "wrt sh' = w" "reader_count sh' = rc" "pc t' = (if rc = 0 then RPostWrt else RPostMutex2)"
      by (auto simp: thread_step_def goto_def m_def w_def rc_def)
    show ?thesis
      unfolding us [unfolded RTest0 eff(5), simplified] eff(2-4)
      using old sub ps [unfolded RTest0, simplified] eff(1)
      by (auto simp: inv_num_def split: if_splits)
  next
    case RPostWrt
    with st reader_step_effect [of e "sh s" "threads s ! i" sh' t']
    have eff: "True" "mutex sh' = m" "wrt sh' = w + 1" "reader_count sh' = rc" "pc t' = RPostMutex2"
      by (auto simp: thread_step_def goto_def m_def w_def rc_def)
    show ?thesis
      unfolding us [unfolded RPostWrt eff(5), simplified] eff(2-4)
      using old sub ps [unfolded RPostWrt, simplified] eff(1)
      by (auto simp: inv_num_def split: if_splits)
  next
    case RPostMutex2
    with st reader_step_effect [of e "sh s" "threads s ! i" sh' t']
    have eff: "True" "mutex sh' = m + 1" "wrt sh' = w" "reader_count sh' = rc" "pc t' = RClose"
      by (auto simp: thread_step_def goto_def m_def w_def rc_def)
    show ?thesis
      unfolding us [unfolded RPostMutex2 eff(5), simplified] eff(2-4)
      using old sub ps [unfolded RPostMutex2, simplified] eff(1)
      by (auto simp: inv_num_def split: if_splits)
  next
    case RClose
    with st reader_step_effect [of e "sh s" "threads s ! i" sh' t']
    have eff: "True" "mutex sh' = m" "wrt sh' = w" "reader_count sh' = rc" "pc t' = Done"
      by (auto simp: thread_step_def goto_def m_def w_def rc_def)
    show ?thesis
      unfolding us [unfolded RClose eff(5), simplified] eff(2-4)
      using old sub ps [unfolded RClose, simplified] eff(1)
      by (auto simp: inv_num_def split: if_splits)
  next
    case AwaitRole
    with st have eff: "mutex sh' = m" "wrt sh' = w" "reader_count sh' = rc"
        "pc t' = Done \<or> (\<exists>x. pc t' = WInitial x) \<or> pc t' = REntry"
      by (auto simp: thread_step_def await_role_def goto_def Let_def m_def w_def rc_def
               split: if_splits prod.splits)
    from eff(4) have idle: "\<not> entering (pc t')" "\<not> admitted (pc t')" "\<not> reading (pc t')"
        "\<not> leaving (pc t')" "\<not> passing (pc t')" "\<not> holds_gate (pc t')"
        "pc t' \<noteq> RWaitWrt" "pc t' \<noteq> RPostWrt"
      by auto
    show ?thesis
      unfolding us [unfolded AwaitRole, simplified idle, simplified] eff(1-3)
      using old by simp
  next
    case (WInitial x)
    with st have eff: "mutex sh' = m" "reader_count sh' = rc"
        "\<exists>h'. (pc t' = WLoop h' \<or> pc t' = WStart h') \<and>
              ((\<not> h' \<and> wrt sh' = w) \<or> (h' \<and> w = wrt sh' + 1))"
      by (auto simp: thread_step_def writer_initial_def goto_def m_def w_def rc_def
               split: if_splits prod.splits option.splits dest!: initial_command_lock)
    from eff(3) obtain h' where h': "pc t' = WLoop h' \<or> pc t' = WStart h'"
        "(\<not> h' \<and> wrt sh' = w) \<or> (h' \<and> w = wrt sh' + 1)" by blast
    from h'(1) have cl: "\<not> entering (pc t')" "\<not> admitted (pc t')" "\<not> reading (pc t')"
        "\<not> leaving (pc t')" "\<not> passing (pc t')" "holds_gate (pc t') = h'"
        "pc t' \<noteq> RWaitWrt" "pc t' \<noteq> RPostWrt"
      by auto
    show ?thesis
      unfolding us [unfolded WInitial, simplified cl, simplified] eff(1-2)
      using old sub h'(2)
      by (auto simp: inv_num_def split: if_splits)
  next
    case (WLoop h)
    with st have eff: "mutex sh' = m" "reader_count sh' = rc"
        "\<exists>h'. (pc t' = WLoop h' \<or> pc t' = WTeardown h' \<or> pc t' = WStart h') \<and>
              ((h' = h \<and> wrt sh' = w) \<or> (h' \<and> w = wrt sh' + 1) \<or> (h \<and> \<not> h' \<and> wrt sh' = w + 1))"
      by (auto simp: thread_step_def writer_loop_def goto_def Let_def m_def w_def rc_def
               split: if_splits prod.splits option.splits dest!: loop_command_lock)
    from eff(3) obtain h' where h': "pc t' = WLoop h' \<or> pc t' = WTeardown h' \<or> pc t' = WStart h'"
        "(h' = h \<and> wrt sh' = w) \<or> (h' \<and> w = wrt sh' + 1) \<or> (h \<and> \<not> h' \<and> wrt sh' = w + 1)"
      by blast
    from h'(1) have cl: "\<not> entering (pc t')" "\<not> admitted (pc t')" "\<not> reading (pc t')"
        "\<not> leaving (pc t')" "\<not> passing (pc t')" "holds_gate (pc t') = h'"
        "pc t' \<noteq> RWaitWrt" "pc t' \<noteq> RPostWrt"
      by auto
    show ?thesis
      unfolding us [unfolded WLoop, simplified cl, simplified] eff(1-2)
      using old sub h'(2) ps [unfolded WLoop, simplified]
      by (auto simp: inv_num_def split: if_splits)
  next
    case (WStart h)
    with st have eff: "w > 0" "mutex sh' = m" "reader_count sh' = rc" "wrt sh' = w - 1"
        "pc t' = WLoop True"
      by (auto simp: thread_step_def writer_start_def goto_def m_def w_def rc_def
               split: if_splits)
    show ?thesis
      unfolding us [unfolded WStart eff(5), simplified] eff(2-4)
      using old sub ps [unfolded WStart, simplified] eff(1)
      by (auto simp: inv_num_def split: if_splits)
  next
    case (WTeardown h)
    with st have eff: "mutex sh' = m" "reader_count sh' = rc" "wrt sh' = (if h then w + 1 else w)"
        "pc t' = Done"
      by (auto simp: thread_step_def writer_teardown_def goto_def m_def w_def rc_def
               split: if_splits)
    show ?thesis
      unfolding us [unfolded WTeardown eff(4), simplified] eff(1-3)
      using old sub ps [unfolded WTeardown, simplified]
      by (auto simp: inv_num_def split: if_splits)
  next
    case Done
    with st show ?thesis by (simp add: thread_step_def)
  qed
  then show ?thesis
    unfolding lock_inv_def by simp
qed


section \<open>The trace of a reader\<close>








section \<open>Every reachable state satisfies the invariants\<close>

lemma reachable_lock_inv: "reachable s \<Longrightarrow> lock_inv s"
proof (induction rule: reachable.induct)
  case (init ds)
  show ?case by (simp add: lock_inv_def inv_num_def cnt_def)
next
  case (accept s)
  then show ?case by (simp add: lock_inv_def cnt_append new_thread_def)
next
  case (step s i e sh' t')
  then show ?case by (intro step_inv)
qed


section \<open>Text of a frame\<close>

lemma strstr_sublist: "strstr hay needle \<noteq> None \<longleftrightarrow> sublist needle hay"
proof (induction hay)
  case Nil
  show ?case by simp
next
  case (Cons c cs)
  have "take (length needle) (c # cs) = needle \<longleftrightarrow> prefix needle (c # cs)"
    by (metis prefix_def append_take_drop_id append_eq_conv_conj)
  with Cons show ?case
    by (cases needle) (auto simp: sublist_Cons_right)
qed

lemma rtrim_prefix: "prefix (rtrim s) s"
proof -
  have "rev s = takeWhile (\<lambda>c. c = NL \<or> c = CR) (rev s) @ dropWhile (\<lambda>c. c = NL \<or> c = CR) (rev s)"
    by simp
  then have "s = rtrim s @ rev (takeWhile (\<lambda>c. c = NL \<or> c = CR) (rev s))"
    unfolding rtrim_def by (metis rev_append rev_rev_ident)
  then show ?thesis by (metis prefixI)
qed

lemma rtrim_append:
  assumes "w \<noteq> []" "last w \<noteq> NL" "last w \<noteq> CR"
  shows "rtrim (w @ y) = w @ rtrim y"
proof -
  from assms have "dropWhile (\<lambda>c. c = NL \<or> c = CR) (rev w) = rev w"
    by (cases w rule: rev_cases) auto
  then show ?thesis
    unfolding rtrim_def by (simp add: dropWhile_append)
qed

lemma cstr_prefix: "prefix (cstr s) s"
  unfolding cstr_def by (metis prefixI takeWhile_dropWhile_id)

lemma cstr_append: "NUL \<notin> set w \<Longrightarrow> cstr (w @ y) = w @ cstr y"
  unfolding cstr_def by (simp add: takeWhile_append)

lemma frame_text_prefix: "prefix (frame_text bs) bs"
  unfolding frame_text_def
  by (meson prefix_order.order_trans rtrim_prefix cstr_prefix take_is_prefix)

lemma sublist_snoc:
  assumes "c \<notin> set w" "w \<noteq> []"
  shows "sublist w (a @ [c]) \<longleftrightarrow> sublist w a"
proof
  assume "sublist w (a @ [c])"
  then obtain ps ss where eq: "a @ [c] = ps @ w @ ss" by (auto simp: sublist_def)
  show "sublist w a"
  proof (cases ss rule: rev_cases)
    case Nil
    with eq assms have "last w = c" by (metis append_Nil2 last_appendR last_snoc)
    with assms show ?thesis by (metis last_in_set)
  next
    case (snoc ss' z)
    with eq have "a = ps @ w @ ss'" by (metis append_assoc butlast_snoc)
    then show ?thesis by (auto simp: sublist_def)
  qed
next
  assume "sublist w a"
  then show "sublist w (a @ [c])" by (metis sublist_append)
qed

lemma sublist_rtrim:
  assumes "NL \<notin> set w" "CR \<notin> set w" "w \<noteq> []"
  shows "sublist w (rtrim s) \<longleftrightarrow> sublist w s"
proof (induction s rule: rev_induct)
  case Nil
  show ?case by (simp add: rtrim_def)
next
  case (snoc c s)
  show ?case
  proof (cases "c = NL \<or> c = CR")
    case True
    then have "rtrim (s @ [c]) = rtrim s" by (auto simp: rtrim_def)
    moreover from True assms have "c \<notin> set w" by auto
    ultimately show ?thesis using snoc sublist_snoc [OF _ assms(3)] by simp
  next
    case False
    then have "rtrim (s @ [c]) = s @ [c]" by (auto simp: rtrim_def)
    then show ?thesis by simp
  qed
qed


lemma take_eq_prefix: "length w = n \<Longrightarrow> take n s = w \<longleftrightarrow> prefix w s"
  by (metis append_eq_conv_conj prefix_def append_take_drop_id)

lemma frame_text_starts:
  assumes "length w = 6" "NUL \<notin> set w" "NL \<notin> set w" "CR \<notin> set w"
  shows "strncmp_eq (frame_text bs) w 6 \<longleftrightarrow> prefix w bs"
proof
  assume "strncmp_eq (frame_text bs) w 6"
  with assms(1) have "prefix w (frame_text bs)"
    by (simp add: strncmp_eq_def take_eq_prefix)
  then show "prefix w bs"
    using frame_text_prefix prefix_order.order_trans by blast
next
  assume "prefix w bs"
  then obtain r where bs: "bs = w @ r" by (auto simp: prefix_def)
  from assms(1) have w: "w \<noteq> []" by auto
  with assms have lw: "last w \<noteq> NL" "last w \<noteq> CR" by (metis last_in_set)+
  have "take (BUFFER_SIZE - 1) bs = w @ take (BUFFER_SIZE - 1 - 6) r"
    using assms(1) by (simp add: bs BUFFER_SIZE_def)
  then have "frame_text bs = w @ rtrim (cstr (take (BUFFER_SIZE - 1 - 6) r))"
    unfolding frame_text_def by (simp add: cstr_append [OF assms(2)] rtrim_append [OF w lw])
  with assms(1) show "strncmp_eq (frame_text bs) w 6"
    by (simp add: strncmp_eq_def)
qed

lemma frame_text_contains:
  assumes "NL \<notin> set w" "CR \<notin> set w" "w \<noteq> []"
  shows "strstr (frame_text bs) w \<noteq> None \<longleftrightarrow> sublist w (cstr (take (BUFFER_SIZE - 1) bs))"
  unfolding frame_text_def strstr_sublist by (rule sublist_rtrim [OF assms])

lemma determine_mode_frame:
  "determine_mode (frame_text bs) =
     (if prefix ''writer'' bs then ''writer''
      else if prefix ''reader'' bs then ''reader''
      else if sublist ''writer'' (cstr (take (BUFFER_SIZE - 1) bs)) then ''writer''
      else if sublist ''reader'' (cstr (take (BUFFER_SIZE - 1) bs)) then ''reader''
      else [])"
proof -
  have a: "strncmp_eq (frame_text bs) ''writer'' 6 \<longleftrightarrow> prefix ''writer'' bs"
    by (rule frame_text_starts) (simp_all add: NUL_def NL_def CR_def)
  have b: "strncmp_eq (frame_text bs) ''reader'' 6 \<longleftrightarrow> prefix ''reader'' bs"
    by (rule frame_text_starts) (simp_all add: NUL_def NL_def CR_def)
  have c: "strstr (frame_text bs) ''writer'' \<noteq> None \<longleftrightarrow> sublist ''writer'' (cstr (take (BUFFER_SIZE - 1) bs))"
    by (rule frame_text_contains) (simp_all add: NL_def CR_def)
  have d: "strstr (frame_text bs) ''reader'' \<noteq> None \<longleftrightarrow> sublist ''reader'' (cstr (take (BUFFER_SIZE - 1) bs))"
    by (rule frame_text_contains) (simp_all add: NL_def CR_def)
  show ?thesis unfolding determine_mode_def a b c d ..
qed

lemma await_role_frame:
  assumes "pc t = AwaitRole" "recv_in e = Data bs" "bs \<noteq> []"
  shows "thread_step e s t =
     (let m = determine_mode (frame_text bs)
      in if m = ''writer'' then Some (s, goto (t\<lparr>mode := m\<rparr>) (WInitial (frame_text bs)) [])
         else if m = ''reader'' then Some (s, goto (t\<lparr>mode := m\<rparr>) REntry [])
         else Some (s, goto (t\<lparr>mode := m\<rparr>) Done [Close]))"
proof -
  define n where "n = int (length (take (BUFFER_SIZE - 1) bs))"
  have r: "recv_into (BUFFER_SIZE - 1) (recv_in e) = (n, take (BUFFER_SIZE - 1) bs)"
    by (simp add: assms(2) n_def)
  from assms(3) have n: "\<not> n \<le> 0"
    by (simp add: n_def BUFFER_SIZE_def)
  show ?thesis
    unfolding thread_step_def await_role_def assms(1) label.case r prod.case frame_text_def
    using n by (simp add: Let_def)
qed

text \<open>
  Claim C7 (role negotiation). For every non-empty first frame: a frame that starts with
  \<open>reader\<close> makes the connection a reader, one that starts with \<open>writer\<close> a writer;
  otherwise the role is decided by searching the text of the frame (its bytes up to the
  first NUL) for \<open>writer\<close>, then for \<open>reader\<close>; a frame with neither is closed, and
  \<open>Close\<close> is the only event: nothing is sent.
\<close>

theorem role_negotiation:
  assumes "pc t = AwaitRole" "recv_in e = Data bs" "bs \<noteq> []"
  shows "(prefix ''reader'' bs \<longrightarrow>
            thread_step e s t = Some (s, goto (t\<lparr>mode := ''reader''\<rparr>) REntry []))
       \<and> (prefix ''writer'' bs \<longrightarrow>
            thread_step e s t = Some (s, goto (t\<lparr>mode := ''writer''\<rparr>) (WInitial (frame_text bs)) []))
       \<and> (\<not> prefix ''reader'' bs \<and> \<not> prefix ''writer'' bs \<longrightarrow>
            thread_step e s t =
              (if sublist ''writer'' (cstr (take (BUFFER_SIZE - 1) bs))
               then Some (s, goto (t\<lparr>mode := ''writer''\<rparr>) (WInitial (frame_text bs)) [])
               else if sublist ''reader'' (cstr (take (BUFFER_SIZE - 1) bs))
               then Some (s, goto (t\<lparr>mode := ''reader''\<rparr>) REntry [])
               else Some (s, goto (t\<lparr>mode := []\<rparr>) Done [Close])))"
proof -
  have "\<not> (prefix ''reader'' bs \<and> prefix ''writer'' bs)"
    by (auto simp: prefix_def)
  then show ?thesis
    unfolding await_role_frame [OF assms] determine_mode_frame by (simp add: Let_def)
qed

text \<open>Unfolding these evaluates one step of a connection on concrete input.\<close>

lemmas eval_defs = thread_step_def writer_loop_def writer_initial_def writer_start_def
  writer_teardown_def await_role_def
  reader_step_def loop_command_def initial_command_def goto_def world_def fresh_def writer_at_def
  reader_at_def send_def rtrim_def cstr_def NL_def CR_def NUL_def BUFFER_SIZE_def p_after_def
  determine_mode_def strncmp_eq_def Let_def new_thread_def frame_text_def

theorem role_negotiation_witness:
  "pc new_thread = AwaitRole \<and> recv_in (world (Data ''spectator'')) = Data ''spectator''
   \<and> ''spectator'' \<noteq> []
   \<and> \<not> prefix ''reader'' ''spectator'' \<and> \<not> prefix ''writer'' ''spectator''
   \<and> thread_step (world (Data ''spectator'')) fresh new_thread
       = Some (fresh, \<lparr>pc = Done, mode = [], log = [Close]\<rparr>)
   \<and> prefix ''reader'' ''reader''
   \<and> thread_step (world (Data ''reader'')) fresh new_thread = Some (fresh, reader_at REntry [])
   \<and> prefix ''writer'' ''writer start''
   \<and> thread_step (world (Data ''writer start'')) fresh new_thread
       = Some (fresh, writer_at (WInitial ''writer start'') [])"
proof -
  have h: "pc new_thread = AwaitRole" "recv_in (world (Data ''spectator'')) = Data ''spectator''"
      "''spectator'' \<noteq> []"
    by (simp_all add: new_thread_def world_def)
  have n: "\<not> prefix ''reader'' ''spectator''" "\<not> prefix ''writer'' ''spectator''"
    by simp_all
  have "cstr (take (BUFFER_SIZE - 1) ''spectator'') = ''spectator''"
    by (simp add: cstr_def NUL_def BUFFER_SIZE_def)
  moreover have "\<not> sublist ''writer'' ''spectator''" "\<not> sublist ''reader'' ''spectator''"
    by (simp_all add: sublist_Cons_right)
  ultimately have a: "thread_step (world (Data ''spectator'')) fresh new_thread
       = Some (fresh, \<lparr>pc = Done, mode = [], log = [Close]\<rparr>)"
    using role_negotiation [OF h, of fresh] h n
    by (simp add: goto_def new_thread_def)
  have r: "recv_in (world (Data ''reader'')) = Data ''reader''" "''reader'' \<noteq> []"
      "prefix ''reader'' ''reader''"
    by (simp_all add: world_def)
  from role_negotiation [OF h(1) r(1,2), of fresh] r(3)
  have b: "thread_step (world (Data ''reader'')) fresh new_thread = Some (fresh, reader_at REntry [])"
    by (simp add: goto_def new_thread_def reader_at_def)
  have w: "recv_in (world (Data ''writer start'')) = Data ''writer start''" "''writer start'' \<noteq> []"
      "prefix ''writer'' ''writer start''" "frame_text ''writer start'' = ''writer start''"
    by (simp_all add: world_def frame_text_def rtrim_def cstr_def NL_def CR_def NUL_def BUFFER_SIZE_def)
  from role_negotiation [OF h(1) w(1,2), of fresh] w(3,4)
  have c: "thread_step (world (Data ''writer start'')) fresh new_thread
       = Some (fresh, writer_at (WInitial ''writer start'') [])"
    by (simp add: goto_def new_thread_def writer_at_def)
  from h n a r(3) b w(3) c show ?thesis by simp
qed

section \<open>Writer commands\<close>

lemma frame_text_nonempty:
  assumes "frame_text bs \<noteq> []"
  shows "\<not> int (length (take (BUFFER_SIZE - 1) bs)) \<le> 0"
proof -
  from assms have "take (BUFFER_SIZE - 1) bs \<noteq> []"
    by (auto simp: frame_text_def rtrim_def cstr_def)
  then show ?thesis by simp
qed

lemma writer_loop_frame:
  assumes "pc t = WLoop h" "recv_in e = Data bs" "frame_text bs \<noteq> []"
  shows "thread_step e s t =
     (case loop_command e (frame_text bs) h s of
        None \<Rightarrow> Some (s, goto t (WStart h) [])
      | Some (h', cont, s', evs) \<Rightarrow>
          Some (s', goto t (if cont then WLoop h' else WTeardown h') evs))"
proof -
  define n where "n = int (length (take (BUFFER_SIZE - 1) bs))"
  have r: "recv_into (BUFFER_SIZE - 1) (recv_in e) = (n, take (BUFFER_SIZE - 1) bs)"
    by (simp add: assms(2) n_def)
  have n: "n > 0"
    using frame_text_nonempty [OF assms(3)] by (simp add: n_def)
  from assms(3) have ne: "rtrim (cstr (take (BUFFER_SIZE - 1) bs)) \<noteq> []"
    by (simp add: frame_text_def)
  show ?thesis
    unfolding thread_step_def writer_loop_def assms(1) label.case r prod.case frame_text_def
    using n ne by (simp add: Let_def)
qed

lemma writer_initial_payload:
  assumes "pc t = WInitial initial" "p_after initial = Some p" "p \<noteq> []"
  shows "thread_step e s t =
     (case initial_command e p False s of
        None \<Rightarrow> Some (s, goto t (WStart False) [])
      | Some (h, cont, s', evs) \<Rightarrow> Some (s', goto t (WLoop h) evs))"
  using assms by (simp add: thread_step_def writer_initial_def)

lemma insert_result_prefix:
  "prefix ''OK: '' (fst (insert_message_to_db_pool e msg ds))
   \<or> prefix ''ERROR: '' (fst (insert_message_to_db_pool e msg ds))"
  by (simp add: insert_message_to_db_pool_def snprintf_def split: option.splits)

text \<open>
  Claim C4, as amended. A \<open>stop\<close> frame in the command loop releases the gate, clears
  \<open>has_lock\<close> and is answered \<open>OK: writer session stopped\<close> when the connection holds
  the lock; when it does not, nothing changes and the answer is
  \<open>ERROR: no active writer session\<close>. A \<open>stop\<close> that arrives as the payload of the role
  frame (where \<open>has_lock\<close> is always false) changes nothing either, but is answered
  \<open>OK: writer session stopped\<close>.
\<close>

theorem stop_command:
  "(pc t = WLoop True \<and> recv_in e = Data bs \<and> frame_text bs = ''stop'' \<longrightarrow>
      thread_step e s t
        = Some (s\<lparr>wrt := wrt s + 1\<rparr>,
                goto t (WLoop False) [SemPost Wrt, Send ''OK: writer session stopped'']))
   \<and> (pc t = WLoop False \<and> recv_in e = Data bs \<and> frame_text bs = ''stop'' \<longrightarrow>
      thread_step e s t
        = Some (s, goto t (WLoop False) [Send (''ERROR: no active writer session'' @ [NL])]))
   \<and> (pc t = WInitial initial \<and> p_after initial = Some ''stop'' \<longrightarrow>
      thread_step e s t
        = Some (s, goto t (WLoop False) [Send ''OK: writer session stopped'']))"
proof (intro conjI impI)
  assume "pc t = WLoop True \<and> recv_in e = Data bs \<and> frame_text bs = ''stop''"
  then show "thread_step e s t
        = Some (s\<lparr>wrt := wrt s + 1\<rparr>,
                goto t (WLoop False) [SemPost Wrt, Send ''OK: writer session stopped''])"
    using writer_loop_frame [of t True e bs s] by (simp add: loop_command_def send_def)
next
  assume "pc t = WLoop False \<and> recv_in e = Data bs \<and> frame_text bs = ''stop''"
  then show "thread_step e s t
        = Some (s, goto t (WLoop False) [Send (''ERROR: no active writer session'' @ [NL])])"
    using writer_loop_frame [of t False e bs s] by (simp add: loop_command_def send_def)
next
  assume "pc t = WInitial initial \<and> p_after initial = Some ''stop''"
  then show "thread_step e s t
        = Some (s, goto t (WLoop False) [Send ''OK: writer session stopped''])"
    using writer_initial_payload [of t initial "''stop''" e s]
    by (simp add: initial_command_def send_def)
qed

text \<open>
  Claim C5, as amended. A non-empty command other than \<open>start\<close>, \<open>stop\<close> and
  \<open>exit\<close> that arrives while \<open>has_lock\<close> is false leaves the store and the lock as they
  are and is answered with an error line: \<open>ERROR: You must start writing first\<close> in the
  command loop, \<open>ERROR: start writing first\<close> as the payload of the role frame. While
  \<open>has_lock\<close> is true the text is inserted and the result of the insertion, a line that
  starts with \<open>OK: \<close> or \<open>ERROR: \<close>, is sent back whole.
\<close>

theorem message_command:
  assumes "buf \<noteq> []" "buf \<noteq> ''start''" "buf \<noteq> ''stop''" "buf \<noteq> ''exit''"
  shows "(pc t = WLoop False \<and> recv_in e = Data bs \<and> frame_text bs = buf \<longrightarrow>
            thread_step e s t
              = Some (s, goto t (WLoop False)
                           [Send (''ERROR: You must start writing first'' @ [NL])]))
       \<and> (pc t = WLoop True \<and> recv_in e = Data bs \<and> frame_text bs = buf \<longrightarrow>
            thread_step e s t
              = Some (s\<lparr>docs := snd (insert_message_to_db_pool e buf (docs s))\<rparr>,
                      goto t (WLoop True)
                        [DbInsert buf, Send (fst (insert_message_to_db_pool e buf (docs s)))])
            \<and> (prefix ''OK: '' (fst (insert_message_to_db_pool e buf (docs s)))
               \<or> prefix ''ERROR: '' (fst (insert_message_to_db_pool e buf (docs s)))))
       \<and> (pc t = WInitial initial \<and> p_after initial = Some buf \<longrightarrow>
            thread_step e s t
              = Some (s, goto t (WLoop False) [Send (''ERROR: start writing first'' @ [NL])]))"
proof (intro conjI impI)
  assume "pc t = WLoop False \<and> recv_in e = Data bs \<and> frame_text bs = buf"
  then show "thread_step e s t
              = Some (s, goto t (WLoop False)
                           [Send (''ERROR: You must start writing first'' @ [NL])])"
    using writer_loop_frame [of t False e bs s] assms
    by (simp add: loop_command_def send_def)
next
  assume "pc t = WLoop True \<and> recv_in e = Data bs \<and> frame_text bs = buf"
  then show "thread_step e s t
              = Some (s\<lparr>docs := snd (insert_message_to_db_pool e buf (docs s))\<rparr>,
                      goto t (WLoop True)
                        [DbInsert buf, Send (fst (insert_message_to_db_pool e buf (docs s)))])"
    using writer_loop_frame [of t True e bs s] assms
    by (simp add: loop_command_def send_def split: prod.splits)
next
  show "prefix ''OK: '' (fst (insert_message_to_db_pool e buf (docs s)))
        \<or> prefix ''ERROR: '' (fst (insert_message_to_db_pool e buf (docs s)))"
    by (rule insert_result_prefix)
next
  assume "pc t = WInitial initial \<and> p_after initial = Some buf"
  then show "thread_step e s t
              = Some (s, goto t (WLoop False) [Send (''ERROR: start writing first'' @ [NL])])"
    using writer_initial_payload [of t initial buf e s] assms
    by (simp add: initial_command_def send_def)
qed



section \<open>The reply buffer\<close>

lemma take_take_append: "take k (take k xs @ ys) = take k (xs @ ys)"
  by (cases "k \<le> length xs") (simp_all add: min_def)

lemma strncat_room:
  assumes "length buf < n" "n < 2 ^ 64"
  shows "strncat buf line (int n - int (length buf) - 1) = buf @ take (n - 1 - length buf) line"
proof -
  from assms have "0 \<le> int n - int (length buf) - 1" "int n - int (length buf) - 1 < 2 ^ 64"
    by simp_all
  then have "(int n - int (length buf) - 1) mod 2 ^ 64 = int n - int (length buf) - 1"
    by simp
  moreover have "nat (int n - int (length buf) - 1) = n - 1 - length buf"
    by simp
  ultimately show ?thesis by (simp add: strncat_def)
qed

lemma fetch_loop_take:
  assumes "length buf < n" "n < 2 ^ 64"
  shows "fetch_loop e n ds buf = take (n - 1) (buf @ concat (map (format_line e) ds))"
  using assms(1)
proof (induction ds arbitrary: buf)
  case Nil
  then show ?case by simp
next
  case (Cons d ds)
  let ?l = "format_line e d"
  let ?b = "buf @ take (n - 1 - length buf) ?l"
  from Cons.prems have len: "length ?b < n" by simp
  have "fetch_loop e n (d # ds) buf = fetch_loop e n ds ?b"
    by (simp add: strncat_room [OF Cons.prems assms(2)])
  also have "\<dots> = take (n - 1) (?b @ concat (map (format_line e) ds))"
    by (rule Cons.IH [OF len])
  also have "\<dots> = buf @ take (n - 1 - length buf)
                        (take (n - 1 - length buf) ?l @ concat (map (format_line e) ds))"
    using Cons.prems by simp
  also have "\<dots> = buf @ take (n - 1 - length buf) (?l @ concat (map (format_line e) ds))"
    by (simp only: take_take_append)
  also have "\<dots> = take (n - 1) (buf @ concat (map (format_line e) (d # ds)))"
    using Cons.prems by simp
  finally show ?case .
qed

lemma fetch_available:
  assumes "pool e = Available"
  shows "fetch_messages_from_db_pool e ds (BUFFER_SIZE * 8)
         = take (BUFFER_SIZE * 8 - 1) (concat (map (format_line e) (find_sorted ds)))"
  using assms fetch_loop_take [of "[]" "BUFFER_SIZE * 8" e "find_sorted ds"]
  by (simp add: fetch_messages_from_db_pool_def BUFFER_SIZE_def)

lemma fetch_length: "length (fetch_messages_from_db_pool e ds (BUFFER_SIZE * 8)) < BUFFER_SIZE * 8"
proof (cases "pool e = Available")
  case True
  have "0 < BUFFER_SIZE * 8" by (simp add: BUFFER_SIZE_def)
  then show ?thesis
    unfolding fetch_available [OF True] by simp
next
  case False
  then show ?thesis
    by (cases "pool e")
       (simp_all add: fetch_messages_from_db_pool_def strncpy_term_def BUFFER_SIZE_def)
qed

lemma reader_fetch_step:
  assumes "pc t = RFetch"
  shows "thread_step e s t
         = Some (s, goto t RExit
                      [DbFetch, Send (fetch_messages_from_db_pool e (docs s) (BUFFER_SIZE * 8))])"
  using assms by (simp add: thread_step_def reader_step_def send_def Let_def)

lemmas line_defs = line_text_def doc_text_def doc_stamp_def cstr_def NUL_def

lemma fetch_hello:
  "fetch_messages_from_db_pool (world Eof) [hello_doc] (BUFFER_SIZE * 8) = hello_reply"
proof -
  have p: "pool (world Eof) = Available" by (simp add: world_def)
  show ?thesis
    unfolding fetch_available [OF p]
    by (simp add: world_def find_sorted_def format_line_def line_defs
          snprintf_def hello_doc_def hello_reply_def BUFFER_SIZE_def)
qed





section \<open>Scenarios\<close>


lemma reach_step:
  assumes "reachable s" "i < length (threads s)"
    and "thread_step e (sh s) (threads s ! i) = Some (sh', t')"
    and "s' = \<lparr>sh = sh', threads = (threads s)[i := t']\<rparr>"
  shows "reachable s'"
  using reachable.step [OF assms(1-3)] assms(4) by simp

lemma reach_accept:
  assumes "reachable s" "s' = \<lparr>sh = sh s, threads = threads s @ [new_thread]\<rparr>"
  shows "reachable s'"
  using reachable.accept [OF assms(1)] assms(2) by (cases s) simp

lemmas scenario_defs = eval_defs started_ack_def writer_started_def writer_stuck_def
  blocked_reader_def hello_doc_def stocked_def hello_reply_def lone_reader_def reader_finished_def

lemma reachable_writer_started: "reachable writer_started"
proof -
  have 0: "reachable \<lparr>sh = fresh, threads = []\<rparr>"
    unfolding fresh_def by (rule reachable.init)
  have 1: "reachable \<lparr>sh = fresh, threads = [new_thread]\<rparr>"
    by (rule reach_accept [OF 0]) simp
  have 2: "reachable \<lparr>sh = fresh, threads = [writer_at (WInitial ''writer start'') []]\<rparr>"
    by (rule reach_step [OF 1, of 0 "world (Data ''writer start'')"]) (simp_all add: scenario_defs)
  show ?thesis
    by (rule reach_step [OF 2, of 0 "world Eof"]) (simp_all add: scenario_defs)
qed

lemma reachable_blocked_reader: "reachable blocked_reader"
proof -
  let ?w = "writer_at (WLoop True) started_ack"
  have 1: "reachable \<lparr>sh = fresh\<lparr>wrt := 0\<rparr>, threads = [?w, new_thread]\<rparr>"
    by (rule reach_accept [OF reachable_writer_started]) (simp add: scenario_defs)
  have 2: "reachable \<lparr>sh = fresh\<lparr>wrt := 0\<rparr>, threads = [?w, reader_at REntry []]\<rparr>"
    by (rule reach_step [OF 1, of 1 "world (Data ''reader'')"]) (simp_all add: scenario_defs)
  have 3: "reachable \<lparr>sh = fresh\<lparr>wrt := 0, mutex := 0\<rparr>, threads = [?w, reader_at RInc [SemWait Mutex]]\<rparr>"
    by (rule reach_step [OF 2, of 1 "world Eof"]) (simp_all add: scenario_defs)
  show ?thesis
    by (rule reach_step [OF 3, of 1 "world Eof"]) (simp_all add: scenario_defs)
qed


lemma lone_step:
  assumes "reachable (lone_reader s l evs)"
    and "thread_step e s (reader_at l evs) = Some (s', reader_at l' evs')"
  shows "reachable (lone_reader s' l' evs')"
  by (rule reach_step [OF assms(1), of 0 e s' "reader_at l' evs'"])
     (simp_all add: lone_reader_def assms(2))

lemma reachable_reader_waiting:
  "reachable (lone_reader (stocked\<lparr>mutex := 0, reader_count := 1\<rparr>) RWaitWrt [SemWait Mutex])"
proof -
  have 0: "reachable \<lparr>sh = stocked, threads = []\<rparr>"
    unfolding stocked_def by (rule reachable.init)
  have 1: "reachable \<lparr>sh = stocked, threads = [new_thread]\<rparr>"
    by (rule reach_accept [OF 0]) simp
  have 2: "reachable (lone_reader stocked REntry [])"
    by (rule reach_step [OF 1, of 0 "world (Data ''reader'')"]) (simp_all add: scenario_defs)
  have 3: "reachable (lone_reader (stocked\<lparr>mutex := 0\<rparr>) RInc [SemWait Mutex])"
    by (rule lone_step [OF 2, of "world Eof"]) (simp add: scenario_defs)
  have 4: "reachable (lone_reader (stocked\<lparr>mutex := 0, reader_count := 1\<rparr>) RTest [SemWait Mutex])"
    by (rule lone_step [OF 3, of "world Eof"]) (simp add: scenario_defs)
  show ?thesis
    by (rule lone_step [OF 4, of "world Eof"]) (simp add: scenario_defs)
qed

lemma reachable_reader_fetching:
  "reachable (lone_reader (stocked\<lparr>wrt := 0, reader_count := 1\<rparr>) RFetch
                [SemWait Mutex, SemWait Wrt, SemPost Mutex])"
proof -
  have 1: "reachable (lone_reader (stocked\<lparr>mutex := 0, wrt := 0, reader_count := 1\<rparr>) RPostMutex
                        [SemWait Mutex, SemWait Wrt])"
    by (rule lone_step [OF reachable_reader_waiting, of "world Eof"]) (simp add: scenario_defs)
  show ?thesis
    by (rule lone_step [OF 1, of "world Eof"]) (simp add: scenario_defs)
qed

lemma reachable_reader_posting:
  "reachable (lone_reader (stocked\<lparr>mutex := 0, wrt := 0\<rparr>) RPostWrt
                [SemWait Mutex, SemWait Wrt, SemPost Mutex, DbFetch, Send hello_reply, SemWait Mutex])"
proof -
  have f: "fetch_messages_from_db_pool (world Eof) (docs stocked) (BUFFER_SIZE * 8) = hello_reply"
    using fetch_hello by (simp add: stocked_def)
  have 1: "reachable (lone_reader (stocked\<lparr>wrt := 0, reader_count := 1\<rparr>) RExit
                        [SemWait Mutex, SemWait Wrt, SemPost Mutex, DbFetch, Send hello_reply])"
    by (rule lone_step [OF reachable_reader_fetching, of "world Eof"])
       (simp add: reader_fetch_step reader_at_def goto_def f)
  have 2: "reachable (lone_reader (stocked\<lparr>mutex := 0, wrt := 0, reader_count := 1\<rparr>) RDec
                        [SemWait Mutex, SemWait Wrt, SemPost Mutex, DbFetch, Send hello_reply, SemWait Mutex])"
    by (rule lone_step [OF 1, of "world Eof"]) (simp add: scenario_defs)
  have 3: "reachable (lone_reader (stocked\<lparr>mutex := 0, wrt := 0\<rparr>) RTest0
                        [SemWait Mutex, SemWait Wrt, SemPost Mutex, DbFetch, Send hello_reply, SemWait Mutex])"
    by (rule lone_step [OF 2, of "world Eof"]) (simp add: scenario_defs)
  show ?thesis
    by (rule lone_step [OF 3, of "world Eof"]) (simp add: scenario_defs)
qed






section \<open>Claims about the lock\<close>

lemma cnt_pos_iff: "0 < cnt P ts \<longleftrightarrow> (\<exists>t\<in>set ts. P (pc t))"
  unfolding cnt_def by (simp add: filter_empty_conv)

lemma cnt_zero_iff: "cnt P ts = 0 \<longleftrightarrow> (\<forall>t\<in>set ts. \<not> P (pc t))"
  unfolding cnt_def by (simp add: filter_empty_conv)

lemma cnt_past_gate: "cnt past_gate ts \<le> cnt admitted ts + cnt reading ts + cnt leaving ts"
  by (induction ts) (auto simp: cnt_def)

lemma lock_inv_facts:
  assumes "lock_inv s"
  shows "cnt holds_gate (threads s) \<le> 1"
    and "0 < cnt past_gate (threads s) \<Longrightarrow> wrt (sh s) = 0 \<and> cnt holds_gate (threads s) = 0"
    and "0 < cnt holds_gate (threads s) \<Longrightarrow>
           wrt (sh s) = 0 \<and> cnt past_gate (threads s) = 0 \<and> reader_count (sh s) \<le> 1 \<and>
           (0 < reader_count (sh s) \<longrightarrow> mutex (sh s) = 0 \<and> 0 < cnt entering (threads s))"
    and "0 < cnt (\<lambda>l. l = RWaitWrt) (threads s) \<Longrightarrow>
           reader_count (sh s) = 1 \<and> cnt past_gate (threads s) = 0"
    and "0 < cnt (\<lambda>l. l = RPostWrt) (threads s) \<Longrightarrow>
           reader_count (sh s) = 0 \<and> cnt reading (threads s) = 0 \<and> cnt admitted (threads s) = 0"
proof -
  define m w rc where "m = mutex (sh s)" and "w = wrt (sh s)" and "rc = reader_count (sh s)"
  define A B C D E H W P G where "A = cnt entering (threads s)" and "B = cnt admitted (threads s)"
    and "C = cnt reading (threads s)" and "D = cnt leaving (threads s)"
    and "E = cnt passing (threads s)" and "H = cnt holds_gate (threads s)"
    and "W = cnt (\<lambda>l. l = RWaitWrt) (threads s)" and "P = cnt (\<lambda>l. l = RPostWrt) (threads s)"
    and "G = cnt past_gate (threads s)"
  note defs = A_def B_def C_def D_def E_def H_def W_def P_def G_def m_def w_def rc_def
  have old: "inv_num m w rc A B C D E H W P"
    using assms unfolding lock_inv_def defs .
  have sub: "W \<le> A" "P \<le> D" "B \<le> G" "C \<le> G" "D \<le> G"
    unfolding defs by (rule cnt_mono, simp)+
  have "G \<le> B + C + D"
    unfolding defs by (rule cnt_past_gate)
  note facts = old sub this
  show "cnt holds_gate (threads s) \<le> 1"
    using facts unfolding defs [symmetric] by (auto simp: inv_num_def split: if_splits)
  show "wrt (sh s) = 0 \<and> cnt holds_gate (threads s) = 0" if "0 < cnt past_gate (threads s)"
    using facts that unfolding defs [symmetric] by (auto simp: inv_num_def split: if_splits)
  show "wrt (sh s) = 0 \<and> cnt past_gate (threads s) = 0 \<and> reader_count (sh s) \<le> 1 \<and>
           (0 < reader_count (sh s) \<longrightarrow> mutex (sh s) = 0 \<and> 0 < cnt entering (threads s))"
    if "0 < cnt holds_gate (threads s)"
    using facts that unfolding defs [symmetric] by (auto simp: inv_num_def split: if_splits)
  show "reader_count (sh s) = 1 \<and> cnt past_gate (threads s) = 0"
    if "0 < cnt (\<lambda>l. l = RWaitWrt) (threads s)"
    using facts that unfolding defs [symmetric] by (auto simp: inv_num_def split: if_splits)
  show "reader_count (sh s) = 0 \<and> cnt reading (threads s) = 0 \<and> cnt admitted (threads s) = 0"
    if "0 < cnt (\<lambda>l. l = RPostWrt) (threads s)"
    using facts that unfolding defs [symmetric] by (auto simp: inv_num_def split: if_splits)
qed

text \<open>
  Claim C1, as amended. In every reachable state at most one writer holds the gate; while
  any reader is past the gate (from the end of its entry section to the release in its exit
  section, the fetch and the send included) the gate is taken and no writer holds it; a
  reader about to wait for the gate is the first one (\<open>reader_count = 1\<close>) and no reader
  is past the gate yet; a reader about to release the gate is the last one
  (\<open>reader_count = 0\<close>) and no reader is still reading. \<open>reader_count\<close> itself can be
  positive while a writer holds the gate, but only as 1, with the mutex taken by a reader
  that is still in its entry section.
\<close>

theorem mutual_exclusion:
  assumes "reachable s"
  shows "cnt holds_gate (threads s) \<le> 1
       \<and> (\<forall>t\<in>set (threads s). past_gate (pc t) \<longrightarrow>
            wrt (sh s) = 0 \<and> (\<forall>u\<in>set (threads s). \<not> holds_gate (pc u)))
       \<and> (\<forall>u\<in>set (threads s). holds_gate (pc u) \<and> 0 < reader_count (sh s) \<longrightarrow>
            reader_count (sh s) = 1 \<and> mutex (sh s) = 0 \<and>
            (\<exists>t\<in>set (threads s). entering (pc t)))
       \<and> (\<forall>t\<in>set (threads s). pc t = RWaitWrt \<longrightarrow>
            reader_count (sh s) = 1 \<and> (\<forall>u\<in>set (threads s). \<not> past_gate (pc u)))
       \<and> (\<forall>t\<in>set (threads s). pc t = RPostWrt \<longrightarrow>
            reader_count (sh s) = 0 \<and> (\<forall>u\<in>set (threads s). \<not> reading (pc u)))"
proof -
  note f = lock_inv_facts [OF reachable_lock_inv [OF assms]]
  show ?thesis
    using f(1) f(2-5) [unfolded cnt_pos_iff cnt_zero_iff]
    by (intro conjI ballI impI) (blast | force)+
qed


text \<open>
  The invariant at four states: a writer in its session with a reader in the entry section,
  and a lone reader about to wait for the gate, reading, and about to release the gate.
\<close>

theorem mutual_exclusion_witness:
  "reachable blocked_reader
   \<and> cnt holds_gate (threads blocked_reader) \<le> 1
   \<and> holds_gate (pc (writer_at (WLoop True) started_ack))
   \<and> 0 < reader_count (sh blocked_reader)
   \<and> reader_count (sh blocked_reader) = 1 \<and> mutex (sh blocked_reader) = 0
   \<and> past_gate RFetch \<and> wrt (stocked\<lparr>wrt := 0, reader_count := 1\<rparr>) = 0
   \<and> reader_count (stocked\<lparr>mutex := 0, reader_count := 1\<rparr>) = 1
   \<and> reader_count (stocked\<lparr>mutex := 0, wrt := 0\<rparr>) = 0"
proof -
  have w: "writer_at (WLoop True) started_ack \<in> set (threads blocked_reader)"
      "holds_gate (pc (writer_at (WLoop True) started_ack))"
      "0 < reader_count (sh blocked_reader)"
    by (simp_all add: blocked_reader_def writer_at_def)
  from mutual_exclusion [OF reachable_blocked_reader] w
  have a: "cnt holds_gate (threads blocked_reader) \<le> 1"
      "reader_count (sh blocked_reader) = 1" "mutex (sh blocked_reader) = 0"
    by blast+
  from mutual_exclusion [OF reachable_reader_fetching]
  have b: "wrt (stocked\<lparr>wrt := 0, reader_count := 1\<rparr>) = 0"
    by (simp add: lone_reader_def reader_at_def)
  from mutual_exclusion [OF reachable_reader_waiting]
  have c: "reader_count (stocked\<lparr>mutex := 0, reader_count := 1\<rparr>) = 1"
    by (simp add: lone_reader_def reader_at_def)
  from mutual_exclusion [OF reachable_reader_posting]
  have d: "reader_count (stocked\<lparr>mutex := 0, wrt := 0\<rparr>) = 0"
    by (simp add: lone_reader_def reader_at_def)
  from reachable_blocked_reader w a b c d show ?thesis by simp
qed

text \<open>
  Claim C1 as stated fails: \<open>reader_count++\<close> precedes \<open>sem_wait(&wrt)\<close>, so a state
  with \<open>reader_count > 0\<close> and a writer holding the gate is reachable.
\<close>

theorem reader_count_counterexample:
  "reachable blocked_reader
   \<and> 0 < reader_count (sh blocked_reader)
   \<and> holds_gate (pc (threads blocked_reader ! 0))"
  using reachable_blocked_reader by (simp add: blocked_reader_def writer_at_def)

text \<open>
  The teardown itself. In every reachable state, a writer whose loop ends, by end of
  stream, by a receive error or by \<open>exit\<close>, goes to the teardown with its \<open>has_lock\<close>
  unchanged; a teardown with \<open>has_lock\<close> set posts the gate once and then closes, and the
  gate, which was taken, is free afterwards; a teardown without it only closes.
\<close>

lemma teardown_releases:
  assumes "reachable s" "i < length (threads s)" "t = threads s ! i"
  shows "(pc t = WLoop h \<and> loop_exits e \<longrightarrow>
            thread_step e (sh s) t = Some (sh s, goto t (WTeardown h) []))
       \<and> (pc t = WTeardown True \<longrightarrow>
            wrt (sh s) = 0 \<and>
            thread_step e (sh s) t = Some ((sh s)\<lparr>wrt := 1\<rparr>, goto t Done [SemPost Wrt, Close]))
       \<and> (pc t = WTeardown False \<longrightarrow>
            thread_step e (sh s) t = Some (sh s, goto t Done [Close]))"
proof (intro conjI impI)
  assume a: "pc t = WLoop h \<and> loop_exits e"
  show "thread_step e (sh s) t = Some (sh s, goto t (WTeardown h) [])"
  proof (cases "recv_in e")
    case (Data bs)
    show ?thesis
    proof (cases "bs = []")
      case True
      with a Data show ?thesis
        by (simp add: thread_step_def writer_loop_def)
    next
      case False
      with a Data have ex: "frame_text bs = ''exit''" by (simp add: loop_exits_def)
      with a Data writer_loop_frame [of t h e bs "sh s"] show ?thesis
        by (simp add: loop_command_def)
    qed
  next
    case Eof
    with a show ?thesis by (simp add: thread_step_def writer_loop_def)
  next
    case RecvError
    with a show ?thesis by (simp add: thread_step_def writer_loop_def)
  qed
next
  assume a: "pc t = WTeardown True"
  with assms(2,3) have "0 < cnt holds_gate (threads s)"
    using cnt_pos [of i "threads s" holds_gate] by simp
  from lock_inv_facts(3) [OF reachable_lock_inv [OF assms(1)] this]
  have w: "wrt (sh s) = 0" by simp
  then show "wrt (sh s) = 0" .
  from a w show "thread_step e (sh s) t = Some ((sh s)\<lparr>wrt := 1\<rparr>, goto t Done [SemPost Wrt, Close])"
    by (simp add: thread_step_def writer_teardown_def)
next
  assume "pc t = WTeardown False"
  then show "thread_step e (sh s) t = Some (sh s, goto t Done [Close])"
    by (simp add: thread_step_def writer_teardown_def)
qed

text \<open>
  A writer that holds the gate and receives \<open>start\<close> enters \<open>sem_wait(&wrt)\<close> again.
\<close>

lemma held_start_blocks:
  assumes "reachable s" "i < length (threads s)" "pc (threads s ! i) = WLoop True"
    and "recv_in e = Data bs" "frame_text bs = ''start''"
  shows "thread_step e (sh s) (threads s ! i) = Some (sh s, goto (threads s ! i) (WStart True) [])"
proof -
  from assms(2,3) have "0 < cnt holds_gate (threads s)"
    using cnt_pos [of i "threads s" holds_gate] by simp
  from lock_inv_facts(3) [OF reachable_lock_inv [OF assms(1)] this]
  have "wrt (sh s) = 0" by simp
  then show ?thesis
    using writer_loop_frame [of "threads s ! i" True e bs "sh s"] assms(3-5)
    by (simp add: loop_command_def)
qed

text \<open>
  There it waits for the gate that it holds itself: whatever its peer does, the thread
  has no step.
\<close>

lemma start_never_returns:
  assumes "reachable s" "i < length (threads s)" "pc (threads s ! i) = WStart True"
  shows "wrt (sh s) = 0 \<and> thread_step e (sh s) (threads s ! i) = None"
proof -
  from assms(2,3) have "0 < cnt holds_gate (threads s)"
    using cnt_pos [of i "threads s" holds_gate] by simp
  from lock_inv_facts(3) [OF reachable_lock_inv [OF assms(1)] this]
  have "wrt (sh s) = 0" by simp
  with assms(3) show ?thesis
    by (simp add: thread_step_def writer_start_def)
qed

lemma later_reachable: "later s s' \<Longrightarrow> reachable s \<Longrightarrow> reachable s'"
  by (induction rule: later.induct) (auto intro: reachable.accept reachable.step)

text \<open>
  So the thread stays where it is and the gate stays taken, whatever the server does
  afterwards: the teardown of this connection is never reached.
\<close>

lemma stuck_forever:
  assumes "later s s'" "reachable s" "i < length (threads s)" "pc (threads s ! i) = WStart True"
  shows "i < length (threads s') \<and> threads s' ! i = threads s ! i \<and> wrt (sh s') = 0"
  using assms
proof (induction rule: later.induct)
  case (same s)
  then show ?case using start_never_returns [of s i] by simp
next
  case (accept s s')
  then have ih: "i < length (threads s')" "threads s' ! i = threads s ! i" "wrt (sh s') = 0"
    by simp_all
  then show ?case by (simp add: nth_append)
next
  case (step s s' j e sh' t')
  then have ih: "i < length (threads s')" "threads s' ! i = threads s ! i"
    by simp_all
  have r: "reachable s'"
    using later_reachable [OF step.hyps(1) step.prems(1)] .
  from ih step.prems(3) have p: "pc (threads s' ! i) = WStart True" by simp
  from start_never_returns [OF r ih(1) p, of e] step.hyps(3) have ne: "j \<noteq> i" by auto
  let ?s = "\<lparr>sh = sh', threads = (threads s')[j := t']\<rparr>"
  have r': "reachable ?s"
    by (rule reachable.step [OF r step.hyps(2,3)])
  from ih ne have n: "i < length (threads ?s)" "threads ?s ! i = threads s ! i" by simp_all
  with step.prems(3) have "pc (threads ?s ! i) = WStart True" by simp
  from start_never_returns [OF r' n(1) this] have "wrt (sh ?s) = 0" by simp
  with n show ?case by simp
qed

text \<open>
  Claim C2 fails on the code. A writer sends \<open>writer start\<close> and then \<open>start\<close>: the
  second \<open>start\<close> calls \<open>sem_wait(&wrt)\<close> at line 192 while the connection holds the gate.
  When its peer now disconnects, however that shows (end of stream, a receive error, or
  an \<open>exit\<close> sent before), the thread has no step: it never receives again and never
  reaches the teardown, and the gate stays taken (\<open>stuck_forever\<close>).
\<close>

theorem disconnect_leaves_gate_held:
  "reachable writer_started
   \<and> thread_step (world (Data ''start'')) (sh writer_started) (threads writer_started ! 0)
       = Some (sh writer_stuck, threads writer_stuck ! 0)
   \<and> reachable writer_stuck
   \<and> pc (threads writer_stuck ! 0) = WStart True
   \<and> wrt (sh writer_stuck) = 0
   \<and> thread_step (world Eof) (sh writer_stuck) (threads writer_stuck ! 0) = None
   \<and> thread_step (world RecvError) (sh writer_stuck) (threads writer_stuck ! 0) = None
   \<and> thread_step (world (Data ''exit'')) (sh writer_stuck) (threads writer_stuck ! 0) = None"
proof -
  have s: "thread_step (world (Data ''start'')) (sh writer_started) (threads writer_started ! 0)
       = Some (sh writer_stuck, threads writer_stuck ! 0)"
    by (simp add: scenario_defs)
  have r: "reachable writer_stuck"
    by (rule reach_step [OF reachable_writer_started, of 0 "world (Data ''start'')"])
       (simp_all add: scenario_defs)
  have l: "(0::nat) < length (threads writer_stuck)" "pc (threads writer_stuck ! 0) = WStart True"
    by (simp_all add: writer_stuck_def writer_at_def)
  note n = start_never_returns [OF r l]
  from n [of "world Eof"] n [of "world RecvError"] n [of "world (Data ''exit'')"]
    reachable_writer_started s r l
  show ?thesis by simp
qed

text \<open>
  Claim C3 fails on the code: \<open>start\<close> calls \<open>sem_wait(&wrt)\<close> whatever \<open>has_lock\<close>
  is. A writer that already holds the gate and sends \<open>start\<close> again waits for the gate it
  holds, and cannot go on from there; were the gate free, the command would take it a
  second time.
\<close>

theorem second_start_waits_again:
  "thread_step (world (Data ''start'')) (sh writer_started) (threads writer_started ! 0)
     = Some (sh writer_started, writer_at (WStart True) started_ack)
   \<and> thread_step (world (Data ''start'')) (sh writer_started) (writer_at (WStart True) started_ack)
     = None
   \<and> loop_command (world (Data ''start'')) ''start'' True (sh writer_started) = None
   \<and> loop_command (world (Data ''start'')) ''start'' True fresh
       = Some (True, True, fresh\<lparr>wrt := 0\<rparr>, [SemWait Wrt, Send ''OK: writer session started''])"
  by (simp add: scenario_defs)

text \<open>
  Claim C9 fails on the code: the literals \<open>"OK: writer session started\n"\<close> and
  \<open>"OK: writer session stopped\n"\<close> have 27 bytes and are sent with length 26, so both
  acknowledgements leave without their newline.
\<close>

theorem acknowledgements_lack_newline:
  "thread_step (world (Data ''start'')) fresh (writer_at (WLoop False) [])
     = Some (fresh\<lparr>wrt := 0\<rparr>,
             writer_at (WLoop True) [SemWait Wrt, Send ''OK: writer session started''])
   \<and> thread_step (world (Data ''stop'')) (fresh\<lparr>wrt := 0\<rparr>) (writer_at (WLoop True) [])
     = Some (fresh,
             writer_at (WLoop False) [SemPost Wrt, Send ''OK: writer session stopped''])
   \<and> last ''OK: writer session started'' \<noteq> NL
   \<and> last ''OK: writer session stopped'' \<noteq> NL"
  by (simp add: scenario_defs)

text \<open>
  Claim C4 as stated fails for the payload of the role frame: \<open>writer stop\<close> is answered
  \<open>OK: writer session stopped\<close> although no session is active.
\<close>

theorem initial_stop_counterexample:
  "thread_step (world Eof) fresh (writer_at (WInitial ''writer stop'') [])
     = Some (fresh, writer_at (WLoop False) [Send ''OK: writer session stopped''])
   \<and> replies [Send ''OK: writer session stopped''] \<noteq> [''ERROR: no active writer session'']"
  by (simp add: scenario_defs)

text \<open>
  Claim C5 as stated fails on the text of the reply: the loop answers
  \<open>ERROR: You must start writing first\<close>, the payload of the role frame is answered
  \<open>ERROR: start writing first\<close>.
\<close>

theorem unlocked_message_counterexample:
  "thread_step (world (Data ''hello'')) fresh (writer_at (WLoop False) [])
     = Some (fresh, writer_at (WLoop False) [Send (''ERROR: You must start writing first'' @ [NL])])
   \<and> replies [Send (''ERROR: You must start writing first'' @ [NL])]
       \<noteq> [''ERROR: you must start writing first'']
   \<and> thread_step (world Eof) fresh (writer_at (WInitial ''writer hello'') [])
     = Some (fresh, writer_at (WLoop False) [Send (''ERROR: start writing first'' @ [NL])])
   \<and> replies [Send (''ERROR: start writing first'' @ [NL])]
       \<noteq> [''ERROR: you must start writing first'']"
  by (simp add: scenario_defs)


text \<open>
  The three cases of \<open>stop\<close> on concrete frames.
\<close>

theorem stop_command_witness:
  "thread_step (world (Data ''stop'')) (fresh\<lparr>wrt := 0\<rparr>) (writer_at (WLoop True) [])
     = Some (fresh, writer_at (WLoop False) [SemPost Wrt, Send ''OK: writer session stopped''])
   \<and> thread_step (world (Data ''stop'')) fresh (writer_at (WLoop False) [])
     = Some (fresh, writer_at (WLoop False) [Send (''ERROR: no active writer session'' @ [NL])])
   \<and> thread_step (world Eof) fresh (writer_at (WInitial ''writer stop'') [])
     = Some (fresh, writer_at (WLoop False) [Send ''OK: writer session stopped''])"
proof -
  have f: "frame_text ''stop'' = ''stop''" "recv_in (world (Data ''stop'')) = Data ''stop''"
      "p_after ''writer stop'' = Some ''stop''"
    by (simp_all add: scenario_defs)
  have p: "pc (writer_at (WLoop True) []) = WLoop True" "pc (writer_at (WLoop False) []) = WLoop False"
      "pc (writer_at (WInitial ''writer stop'') []) = WInitial ''writer stop''"
    by (simp_all add: writer_at_def)
  show ?thesis
    using stop_command [where t = "writer_at (WLoop True) []" and e = "world (Data ''stop'')"
                          and bs = "''stop''" and s = "fresh\<lparr>wrt := 0\<rparr>"]
      stop_command [where t = "writer_at (WLoop False) []" and e = "world (Data ''stop'')"
                      and bs = "''stop''" and s = fresh]
      stop_command [where t = "writer_at (WInitial ''writer stop'') []" and e = "world Eof"
                      and initial = "''writer stop''" and s = fresh]
      f p
    by (simp add: goto_def writer_at_def fresh_def)
qed

text \<open>
  The message \<open>hello\<close> without a session, within one, and as payload of the role frame.
\<close>

theorem message_command_witness:
  "thread_step (world (Data ''hello'')) fresh (writer_at (WLoop False) [])
     = Some (fresh, writer_at (WLoop False) [Send (''ERROR: You must start writing first'' @ [NL])])
   \<and> thread_step (world (Data ''hello'')) (fresh\<lparr>wrt := 0\<rparr>) (writer_at (WLoop True) [])
     = Some (fresh\<lparr>wrt := 0, docs := [hello_doc]\<rparr>,
             writer_at (WLoop True) [DbInsert ''hello'', Send (''OK: message stored'' @ [NL])])
   \<and> thread_step (world Eof) fresh (writer_at (WInitial ''writer hello'') [])
     = Some (fresh, writer_at (WLoop False) [Send (''ERROR: start writing first'' @ [NL])])"
proof -
  have f: "frame_text ''hello'' = ''hello''" "recv_in (world (Data ''hello'')) = Data ''hello''"
      "p_after ''writer hello'' = Some ''hello''"
    by (simp_all add: scenario_defs)
  have p: "pc (writer_at (WLoop True) []) = WLoop True" "pc (writer_at (WLoop False) []) = WLoop False"
      "pc (writer_at (WInitial ''writer hello'') []) = WInitial ''writer hello''"
    by (simp_all add: writer_at_def)
  have n: "''hello'' \<noteq> []" "''hello'' \<noteq> ''start''" "''hello'' \<noteq> ''stop''" "''hello'' \<noteq> ''exit''"
    by simp_all
  have i: "insert_message_to_db_pool (world (Data ''hello'')) ''hello'' [] = (''OK: message stored'' @ [NL], [hello_doc])"
    by (simp add: insert_message_to_db_pool_def world_def snprintf_def hello_doc_def)
  show ?thesis
    using message_command [OF n, where t = "writer_at (WLoop False) []"
                             and e = "world (Data ''hello'')" and bs = "''hello''" and s = fresh]
      message_command [OF n, where t = "writer_at (WLoop True) []"
                         and e = "world (Data ''hello'')" and bs = "''hello''"
                         and s = "fresh\<lparr>wrt := 0\<rparr>"]
      message_command [OF n, where t = "writer_at (WInitial ''writer hello'') []"
                         and e = "world Eof" and initial = "''writer hello''" and s = fresh]
      f p i
    by (simp add: goto_def writer_at_def fresh_def)
qed



section \<open>Claims about the reader reply\<close>

text \<open>
  Claim C10 (bounded reply). The reply buffer has \<open>BUFFER_SIZE * 8 = 32768\<close> bytes. Whatever
  the store holds, the frame sent to a reader has fewer than 32768 bytes (with its
  terminating NUL it fills the buffer at most); when the store answers, the frame is the
  first 32767 bytes, hence a prefix, of the concatenation of the lines that \<open>snprintf\<close>
  formats for all stored messages in cursor order: \<open>strncat\<close> drops what does not fit.
  This frame is what the reader's fetch step sends.
\<close>

theorem reply_bounded:
  "BUFFER_SIZE * 8 = 32768
   \<and> length (fetch_messages_from_db_pool e (docs s) (BUFFER_SIZE * 8)) < 32768
   \<and> (pool e = Available \<longrightarrow>
        fetch_messages_from_db_pool e (docs s) (BUFFER_SIZE * 8)
          = take 32767 (concat (map (format_line e) (find_sorted (docs s))))
        \<and> prefix (fetch_messages_from_db_pool e (docs s) (BUFFER_SIZE * 8))
                 (concat (map (format_line e) (find_sorted (docs s)))))
   \<and> (pc t = RFetch \<longrightarrow>
        thread_step e s t
          = Some (s, goto t RExit
                       [DbFetch, Send (fetch_messages_from_db_pool e (docs s) (BUFFER_SIZE * 8))]))"
proof (intro conjI impI)
  show "BUFFER_SIZE * 8 = 32768" by (simp add: BUFFER_SIZE_def)
  show "length (fetch_messages_from_db_pool e (docs s) (BUFFER_SIZE * 8)) < 32768"
    using fetch_length [of e "docs s"] by (simp add: BUFFER_SIZE_def)
next
  assume a: "pool e = Available"
  show eq: "fetch_messages_from_db_pool e (docs s) (BUFFER_SIZE * 8)
          = take 32767 (concat (map (format_line e) (find_sorted (docs s))))"
    using fetch_available [OF a, of "docs s"] by (simp add: BUFFER_SIZE_def)
  show "prefix (fetch_messages_from_db_pool e (docs s) (BUFFER_SIZE * 8))
                 (concat (map (format_line e) (find_sorted (docs s))))"
    unfolding eq by (rule take_is_prefix)
next
  assume "pc t = RFetch"
  then show "thread_step e s t
          = Some (s, goto t RExit
                       [DbFetch, Send (fetch_messages_from_db_pool e (docs s) (BUFFER_SIZE * 8))])"
    by (rule reader_fetch_step)
qed


text \<open>
  A reader served from a collection that holds one message.
\<close>

theorem reply_bounded_witness:
  "pool (world Eof) = Available \<and> pc (reader_at RFetch []) = RFetch
   \<and> fetch_messages_from_db_pool (world Eof) (docs stocked) (BUFFER_SIZE * 8) = hello_reply
   \<and> prefix hello_reply (concat (map (format_line (world Eof)) (find_sorted (docs stocked))))
   \<and> length hello_reply < 32768
   \<and> thread_step (world Eof) stocked (reader_at RFetch [])
       = Some (stocked, reader_at RExit [DbFetch, Send hello_reply])"
proof -
  have h: "pool (world Eof) = Available" "pc (reader_at RFetch []) = RFetch"
    by (simp_all add: world_def reader_at_def)
  have d: "docs stocked = [hello_doc]" by (simp add: stocked_def)
  show ?thesis
    using reply_bounded [where e = "world Eof" and s = stocked and t = "reader_at RFetch []"] h
    by (simp add: d fetch_hello goto_def reader_at_def)
qed

section \<open>The reply and the store\<close>







text \<open>
  \<open>%s\<close> prints a stored text up to its first NUL.
\<close>

lemma nul_message_line:
  "line_text (world Eof) nul_doc = ''[1970-01-01 00:00:00] ab'' @ [NL]"
  by (simp add: line_defs world_def nul_doc_def)




end
